theory Spec2Isabelle
  imports Complex_Main "HOL-Library.AList"
begin

section \<open>JSON values as Python holds them after \<open>json.loads\<close>\<close>

text \<open>
  A parsed document is a Python value: a \<open>dict\<close> (insertion ordered, so an association
  list in document order), a \<open>list\<close>, or anything else, which the loader calls primitive.
  A float is represented by its value; strings are ASCII strings.
\<close>

datatype prim = PNull | PBool bool | PInt int | PFloat rat | PStr string

datatype json = JPrim prim | JList "json list" | JDict "(string \<times> json) list"

fun jsize :: "json \<Rightarrow> nat" where
  "jsize (JPrim p) = 1"
| "jsize (JList xs) = Suc (sum_list (map jsize xs))"
| "jsize (JDict kvs) = Suc (sum_list (map (\<lambda>kv. jsize (snd kv)) kvs))"

text \<open>The three shape tests of \<open>process_json\<close> (lines 129-131).\<close>

fun is_dict :: "json \<Rightarrow> bool" where
  "is_dict (JDict kvs) = True"
| "is_dict _ = False"

fun is_list :: "json \<Rightarrow> bool" where
  "is_list (JList xs) = True"
| "is_list _ = False"

definition is_primitive :: "json \<Rightarrow> bool" where
  "is_primitive val = (\<not> (is_dict val \<or> is_list val))"

section \<open>Strings\<close>

text \<open>\<open>str.capitalize\<close> on ASCII: first character to upper case, the rest to lower case.\<close>

definition upper_char :: "char \<Rightarrow> char" where
  "upper_char c =
     (let n = (of_char c :: nat) in if 97 \<le> n \<and> n \<le> 122 then char_of (n - 32) else c)"

definition lower_char :: "char \<Rightarrow> char" where
  "lower_char c =
     (let n = (of_char c :: nat) in if 65 \<le> n \<and> n \<le> 90 then char_of (n + 32) else c)"

fun capitalize :: "string \<Rightarrow> string" where
  "capitalize [] = []"
| "capitalize (c # cs) = upper_char c # map lower_char cs"

section \<open>Statements sent to the store\<close>

type_synonym props = "(string \<times> prim) list"

text \<open>
  One value per call of \<open>create_node(label, properties)\<close> and of
  \<open>create_relationship(from_label, from_properties, to_label, to_properties, rel_type)\<close>:
  the arguments as they are at the moment of the call.
\<close>

datatype intent =
    CreateNode string props
  | CreateRelationship string props string props string

text \<open>
  The session: the statements submitted so far, in order, and the state of the store.
  \<open>write_transaction\<close> is the parameter \<open>tx\<close>: it either raises (\<open>Inl\<close>, the store
  is left as it was) or returns the new store.
\<close>

record 's world =
  issued :: "intent list"
  store :: 's

type_synonym ('e, 's) tx = "intent \<Rightarrow> 's \<Rightarrow> 'e + 's"

text \<open>
  \<open>@future_safe\<close>: an exception raised in the body becomes the value \<open>Failure\<close> (here
  \<open>Inl\<close>) of the awaited result; awaiting never raises.
\<close>

definition run_statement :: "('e, 's) tx \<Rightarrow> intent \<Rightarrow> 's world \<Rightarrow> ('e + unit) \<times> 's world" where
  "run_statement tx stmt w =
     (case tx stmt (store w) of
        Inl e \<Rightarrow> (Inl e, w\<lparr>issued := issued w @ [stmt]\<rparr>)
      | Inr s \<Rightarrow> (Inr (), w\<lparr>issued := issued w @ [stmt], store := s\<rparr>))"

definition create_node ::
  "('e, 's) tx \<Rightarrow> string \<Rightarrow> props \<Rightarrow> 's world \<Rightarrow> ('e + unit) \<times> 's world" where
  "create_node tx label properties w = run_statement tx (CreateNode label properties) w"

definition create_relationship ::
  "('e, 's) tx \<Rightarrow> string \<Rightarrow> props \<Rightarrow> string \<Rightarrow> props \<Rightarrow> string \<Rightarrow> 's world
     \<Rightarrow> ('e + unit) \<times> 's world" where
  "create_relationship tx from_label from_properties to_label to_properties rel_type w =
     run_statement tx
       (CreateRelationship from_label from_properties to_label to_properties rel_type) w"

section \<open>\<open>process_json\<close>\<close>

text \<open>A stack frame \<open>(parent_label, parent_properties, rel_type, current_data)\<close>.\<close>

type_synonym frame = "string \<times> props \<times> string option \<times> json"

text \<open>Python's \<open>rel_type or "HAS"\<close>: \<open>None\<close> and the empty string are falsy.\<close>

definition rel_type_or :: "string option \<Rightarrow> string \<Rightarrow> string" where
  "rel_type_or rel_type d = (case rel_type of None \<Rightarrow> d | Some t \<Rightarrow> if t = [] then d else t)"

text \<open>
  The body of \<open>for key, value in current_data.items()\<close> (lines 141-164). The loop state is
  the stack (top at the head: \<open>append\<close> is \<open>#\<close>, \<open>pop\<close> takes the head) and the session.
  Both results of the awaited calls are dropped, as in the source.
\<close>

definition dict_item ::
  "('e, 's) tx \<Rightarrow> string \<Rightarrow> props \<Rightarrow> string option \<Rightarrow> frame list \<times> 's world
     \<Rightarrow> string \<times> json \<Rightarrow> frame list \<times> 's world" where
  "dict_item tx parent_label parent_properties rel_type st kv =
     (let stack = fst st; w = snd st; key = fst kv; val = snd kv;
          node_label = capitalize key;
          node_properties = [(''name'', PStr key)]
      in case val of
           JPrim p \<Rightarrow>
             (let node_properties = AList.update ''value'' p node_properties;
                  w1 = snd (create_node tx node_label node_properties w);
                  w2 = snd (create_relationship tx parent_label parent_properties
                              node_label node_properties (rel_type_or rel_type ''HAS'') w1)
              in (stack, w2))
         | _ \<Rightarrow>
             (let w1 = snd (create_node tx node_label node_properties w);
                  w2 = snd (create_relationship tx parent_label parent_properties
                              node_label node_properties (rel_type_or rel_type ''HAS'') w1)
              in ((node_label, node_properties, Some ''HAS'', val) # stack, w2)))"

text \<open>The body of \<open>for idx, item in enumerate(current_data)\<close> (lines 167-192).\<close>

definition list_item ::
  "('e, 's) tx \<Rightarrow> string \<Rightarrow> props \<Rightarrow> frame list \<times> 's world
     \<Rightarrow> nat \<times> json \<Rightarrow> frame list \<times> 's world" where
  "list_item tx parent_label parent_properties st ix =
     (let stack = fst st; w = snd st; idx = fst ix; item = snd ix;
          node_label = parent_label @ ''Item'';
          node_properties = [(''index'', PInt (int idx))]
      in case item of
           JPrim p \<Rightarrow>
             (let node_properties = AList.update ''value'' p node_properties;
                  w1 = snd (create_node tx node_label node_properties w);
                  w2 = snd (create_relationship tx parent_label parent_properties
                              node_label node_properties ''HAS'' w1)
              in (stack, w2))
         | _ \<Rightarrow>
             (let w1 = snd (create_node tx node_label node_properties w);
                  w2 = snd (create_relationship tx parent_label parent_properties
                              node_label node_properties ''HAS'' w1)
              in ((node_label, node_properties, Some ''HAS'', item) # stack, w2)))"

text \<open>One pass through the body of \<open>while stack\<close> for the popped frame (lines 137-198).\<close>

definition iteration ::
  "('e, 's) tx \<Rightarrow> frame \<Rightarrow> frame list \<times> 's world \<Rightarrow> frame list \<times> 's world" where
  "iteration tx fr st =
     (case fr of (parent_label, parent_properties, rel_type, current_data) \<Rightarrow>
        (case current_data of
           JDict items \<Rightarrow> foldl (dict_item tx parent_label parent_properties rel_type) st items
         | JList xs \<Rightarrow> foldl (list_item tx parent_label parent_properties) st (enumerate 0 xs)
         | JPrim p \<Rightarrow>
             (if parent_label \<noteq> []
              then (fst st,
                    snd (create_node tx parent_label (AList.update ''value'' p parent_properties)
                           (snd st)))
              else st)))"

definition stack_weight :: "frame list \<Rightarrow> nat" where
  "stack_weight stack = sum_list (map (\<lambda>fr. jsize (snd (snd (snd fr)))) stack)"

lemma dict_item_weight:
  "stack_weight (fst (dict_item tx pl pp rt st kv)) \<le> stack_weight (fst st) + jsize (snd kv)"
  by (cases "snd kv") (simp_all add: dict_item_def stack_weight_def Let_def)

lemma list_item_weight:
  "stack_weight (fst (list_item tx pl pp st ix)) \<le> stack_weight (fst st) + jsize (snd ix)"
  by (cases "snd ix") (simp_all add: list_item_def stack_weight_def Let_def)

lemma foldl_dict_item_weight:
  "stack_weight (fst (foldl (dict_item tx pl pp rt) st kvs))
     \<le> stack_weight (fst st) + sum_list (map (\<lambda>kv. jsize (snd kv)) kvs)"
proof (induction kvs arbitrary: st)
  case Nil
  show ?case by simp
next
  case (Cons kv kvs)
  have "stack_weight (fst (foldl (dict_item tx pl pp rt) (dict_item tx pl pp rt st kv) kvs))
          \<le> stack_weight (fst (dict_item tx pl pp rt st kv))
              + sum_list (map (\<lambda>kv. jsize (snd kv)) kvs)"
    by (rule Cons.IH)
  also have "\<dots> \<le> stack_weight (fst st) + jsize (snd kv)
                    + sum_list (map (\<lambda>kv. jsize (snd kv)) kvs)"
    using dict_item_weight [of tx pl pp rt st kv] by simp
  finally show ?case by simp
qed

lemma foldl_list_item_weight:
  "stack_weight (fst (foldl (list_item tx pl pp) st ixs))
     \<le> stack_weight (fst st) + sum_list (map (\<lambda>ix. jsize (snd ix)) ixs)"
proof (induction ixs arbitrary: st)
  case Nil
  show ?case by simp
next
  case (Cons ix ixs)
  have "stack_weight (fst (foldl (list_item tx pl pp) (list_item tx pl pp st ix) ixs))
          \<le> stack_weight (fst (list_item tx pl pp st ix))
              + sum_list (map (\<lambda>ix. jsize (snd ix)) ixs)"
    by (rule Cons.IH)
  also have "\<dots> \<le> stack_weight (fst st) + jsize (snd ix)
                    + sum_list (map (\<lambda>ix. jsize (snd ix)) ixs)"
    using list_item_weight [of tx pl pp st ix] by simp
  finally show ?case by simp
qed

lemma map_snd_enumerate: "map snd (enumerate n xs) = xs"
  by (induction xs arbitrary: n) simp_all

lemma sum_jsize_enumerate:
  "sum_list (map (\<lambda>ix. jsize (snd ix)) (enumerate n xs)) = sum_list (map jsize xs)"
  by (induction xs arbitrary: n) simp_all

lemma iteration_weight:
  "stack_weight (fst (iteration tx fr (stack, w))) < stack_weight (fr # stack)"
proof -
  obtain pl pp rt cur where fr: "fr = (pl, pp, rt, cur)" by (cases fr) auto
  show ?thesis
  proof (cases cur)
    case (JPrim p)
    then show ?thesis by (simp add: fr iteration_def stack_weight_def)
  next
    case (JList xs)
    have "stack_weight (fst (foldl (list_item tx pl pp) (stack, w) (enumerate 0 xs)))
            \<le> stack_weight stack + sum_list (map jsize xs)"
      using foldl_list_item_weight [of tx pl pp "(stack, w)" "enumerate 0 xs"]
      by (simp add: sum_jsize_enumerate)
    then show ?thesis by (simp add: fr JList iteration_def stack_weight_def)
  next
    case (JDict kvs)
    have "stack_weight (fst (foldl (dict_item tx pl pp rt) (stack, w) kvs))
            \<le> stack_weight stack + sum_list (map (\<lambda>kv. jsize (snd kv)) kvs)"
      using foldl_dict_item_weight [of tx pl pp rt "(stack, w)" kvs] by simp
    then show ?thesis by (simp add: fr JDict iteration_def stack_weight_def)
  qed
qed

text \<open>\<open>while stack:\<close> (line 136): pop the top frame and run the body, until the stack is empty.\<close>

function while_stack :: "('e, 's) tx \<Rightarrow> frame list \<times> 's world \<Rightarrow> 's world" where
  "while_stack tx ([], w) = w"
| "while_stack tx (fr # stack, w) = while_stack tx (iteration tx fr (stack, w))"
  by pat_completeness auto
termination
proof (relation "measure (\<lambda>(tx, st). stack_weight (fst st))")
  show "wf (measure (\<lambda>(tx, st). stack_weight (fst st)))" by simp
next
  fix tx :: "('e, 's) tx" and fr stack and w :: "'s world"
  show "((tx, iteration tx fr (stack, w)), (tx, fr # stack, w))
          \<in> measure (\<lambda>(tx, st). stack_weight (fst st))"
    using iteration_weight [of tx fr stack w] by simp
qed

text \<open>
  \<open>process_json\<close> (lines 80-198): the root frame is pushed, the root node is created, then
  the loop runs. Nothing in the body raises, so the awaited result is always \<open>Success\<close>.
\<close>

definition process_json ::
  "('e, 's) tx \<Rightarrow> json \<Rightarrow> 's world \<Rightarrow> ('e + unit) \<times> 's world" where
  "process_json tx data w =
     (let root_label = ''Root'';
          root_properties = [(''name'', PStr ''root'')];
          stack = [(root_label, root_properties, None, data)];
          w1 = snd (create_node tx root_label root_properties w)
      in (Inr (), while_stack tx (stack, w1)))"

section \<open>What one pass of the loop does\<close>

lemma is_primitive_iff: "is_primitive v \<longleftrightarrow> (\<exists>p. v = JPrim p)"
  by (cases v) (simp_all add: is_primitive_def)

type_synonym tnode = "string \<times> props \<times> json"

definition member_props :: "string \<times> prim \<Rightarrow> json \<Rightarrow> props" where
  "member_props key_prop val =
     (case val of JPrim p \<Rightarrow> AList.update ''value'' p [key_prop] | _ \<Rightarrow> [key_prop])"

fun members :: "string \<Rightarrow> json \<Rightarrow> tnode list" where
  "members parent_label (JDict kvs) =
     map (\<lambda>kv. (capitalize (fst kv), member_props (''name'', PStr (fst kv)) (snd kv), snd kv)) kvs"
| "members parent_label (JList xs) =
     map (\<lambda>ix. (parent_label @ ''Item'', member_props (''index'', PInt (int (fst ix))) (snd ix), snd ix))
       (enumerate 0 xs)"
| "members parent_label (JPrim p) = []"

definition exec :: "('e, 's) tx \<Rightarrow> 's \<Rightarrow> intent \<Rightarrow> 's" where
  "exec tx s stmt = (case tx stmt s of Inl e \<Rightarrow> s | Inr s' \<Rightarrow> s')"

definition submit :: "('e, 's) tx \<Rightarrow> intent list \<Rightarrow> 's world \<Rightarrow> 's world" where
  "submit tx stmts w = w\<lparr>issued := issued w @ stmts, store := foldl (exec tx) (store w) stmts\<rparr>"

lemma submit_Nil: "submit tx [] w = w"
  by (simp add: submit_def)

lemma submit_append: "submit tx (xs @ ys) w = submit tx ys (submit tx xs w)"
  by (simp add: submit_def)

lemma snd_run_statement: "snd (run_statement tx stmt w) = submit tx [stmt] w"
  by (simp add: run_statement_def submit_def exec_def split: sum.splits)

lemma snd_create_node: "snd (create_node tx l p w) = submit tx [CreateNode l p] w"
  by (simp add: create_node_def snd_run_statement)

lemma snd_create_relationship:
  "snd (create_relationship tx fl fp tl0 tp ty w) = submit tx [CreateRelationship fl fp tl0 tp ty] w"
  by (simp add: create_relationship_def snd_run_statement)

definition pair_of :: "string \<Rightarrow> props \<Rightarrow> string \<Rightarrow> tnode \<Rightarrow> intent list" where
  "pair_of parent_label parent_properties ty m =
     [CreateNode (fst m) (fst (snd m)),
      CreateRelationship parent_label parent_properties (fst m) (fst (snd m)) ty]"

definition push_of :: "tnode \<Rightarrow> frame list" where
  "push_of m = (if is_primitive (snd (snd m)) then [] else [(fst m, fst (snd m), Some ''HAS'', snd (snd m))])"

lemma dict_item_eq:
  "dict_item tx pl pp rt (stack, w) kv =
     (push_of (capitalize (fst kv), member_props (''name'', PStr (fst kv)) (snd kv), snd kv) @ stack,
      submit tx (pair_of pl pp (rel_type_or rt ''HAS'')
         (capitalize (fst kv), member_props (''name'', PStr (fst kv)) (snd kv), snd kv)) w)"
  by (cases "snd kv")
     (simp_all add: dict_item_def Let_def snd_create_node snd_create_relationship
        pair_of_def push_of_def member_props_def is_primitive_def submit_def)

lemma list_item_eq:
  "list_item tx pl pp (stack, w) ix =
     (push_of (pl @ ''Item'', member_props (''index'', PInt (int (fst ix))) (snd ix), snd ix) @ stack,
      submit tx (pair_of pl pp ''HAS''
         (pl @ ''Item'', member_props (''index'', PInt (int (fst ix))) (snd ix), snd ix)) w)"
  by (cases "snd ix")
     (simp_all add: list_item_def Let_def snd_create_node snd_create_relationship
        pair_of_def push_of_def member_props_def is_primitive_def submit_def)

lemma foldl_items:
  assumes step: "\<And>stack w x. f (stack, w) x = (push_of (g x) @ stack, submit tx (pair_of pl pp ty (g x)) w)"
  shows "foldl f (stack, w) xs =
     (concat (rev (map (\<lambda>x. push_of (g x)) xs)) @ stack,
      submit tx (concat (map (\<lambda>x. pair_of pl pp ty (g x)) xs)) w)"
proof (induction xs arbitrary: stack w)
  case Nil
  show ?case by (simp add: submit_Nil)
next
  case (Cons x xs)
  show ?case by (simp add: step Cons.IH submit_append)
qed

definition frame_rel_type :: "frame \<Rightarrow> string" where
  "frame_rel_type fr =
     (case fr of (pl, pp, rt, cur) \<Rightarrow>
        (case cur of JDict kvs \<Rightarrow> rel_type_or rt ''HAS'' | _ \<Rightarrow> ''HAS''))"

definition frame_emits :: "frame \<Rightarrow> intent list" where
  "frame_emits fr =
     (case fr of (pl, pp, rt, cur) \<Rightarrow>
        (case cur of
           JPrim p \<Rightarrow> (if pl \<noteq> [] then [CreateNode pl (AList.update ''value'' p pp)] else [])
         | _ \<Rightarrow> concat (map (pair_of pl pp (frame_rel_type fr)) (members pl cur))))"

definition frame_pushes :: "frame \<Rightarrow> frame list" where
  "frame_pushes fr =
     (case fr of (pl, pp, rt, cur) \<Rightarrow> concat (rev (map push_of (members pl cur))))"

lemma iteration_eq:
  "iteration tx fr (stack, w) = (frame_pushes fr @ stack, submit tx (frame_emits fr) w)"
proof -
  obtain pl pp rt cur where fr: "fr = (pl, pp, rt, cur)" by (cases fr) auto
  show ?thesis
  proof (cases cur)
    case (JPrim p)
    then show ?thesis
      by (simp add: fr iteration_def frame_pushes_def frame_emits_def snd_create_node submit_Nil)
  next
    case (JList xs)
    have "foldl (list_item tx pl pp) (stack, w) (enumerate 0 xs) =
            (concat (rev (map (\<lambda>ix. push_of (pl @ ''Item'',
                 member_props (''index'', PInt (int (fst ix))) (snd ix), snd ix)) (enumerate 0 xs))) @ stack,
             submit tx (concat (map (\<lambda>ix. pair_of pl pp ''HAS'' (pl @ ''Item'',
                 member_props (''index'', PInt (int (fst ix))) (snd ix), snd ix)) (enumerate 0 xs))) w)"
      by (rule foldl_items) (rule list_item_eq)
    then show ?thesis
      by (simp add: fr JList iteration_def frame_pushes_def frame_emits_def frame_rel_type_def
            o_def rev_map)
  next
    case (JDict kvs)
    have "foldl (dict_item tx pl pp rt) (stack, w) kvs =
            (concat (rev (map (\<lambda>kv. push_of (capitalize (fst kv),
                 member_props (''name'', PStr (fst kv)) (snd kv), snd kv)) kvs)) @ stack,
             submit tx (concat (map (\<lambda>kv. pair_of pl pp (rel_type_or rt ''HAS'') (capitalize (fst kv),
                 member_props (''name'', PStr (fst kv)) (snd kv), snd kv)) kvs)) w)"
      by (rule foldl_items) (rule dict_item_eq)
    then show ?thesis
      by (simp add: fr JDict iteration_def frame_pushes_def frame_emits_def frame_rel_type_def
            o_def rev_map)
  qed
qed

lemma frame_pushes_weight: "stack_weight (frame_pushes fr @ stack) < stack_weight (fr # stack)"
  using iteration_weight [of "\<lambda>i s. (Inr s :: unit + unit)" fr stack "\<lparr>issued = [], store = ()\<rparr>"]
  by (simp add: iteration_eq)

function emitted :: "frame list \<Rightarrow> intent list" where
  "emitted [] = []"
| "emitted (fr # stack) = frame_emits fr @ emitted (frame_pushes fr @ stack)"
  by pat_completeness auto
termination
proof (relation "measure stack_weight")
  show "wf (measure stack_weight)" by simp
next
  fix fr :: frame and stack :: "frame list"
  show "(frame_pushes fr @ stack, fr # stack) \<in> measure stack_weight"
    using frame_pushes_weight [of fr stack] by simp
qed

lemma while_stack_eq: "while_stack tx (stack, w) = submit tx (emitted stack) w"
proof (induction stack arbitrary: w rule: emitted.induct)
  case 1
  show ?case by (simp add: submit_Nil)
next
  case (2 fr stack)
  show ?case by (simp add: iteration_eq "2.IH" submit_append)
qed

definition root_frame :: "json \<Rightarrow> frame" where
  "root_frame data = (''Root'', [(''name'', PStr ''root'')], None, data)"

definition root_intent :: intent where
  "root_intent = CreateNode ''Root'' [(''name'', PStr ''root'')]"

lemma process_json_eq:
  "process_json tx data w = (Inr (), submit tx (root_intent # emitted [root_frame data]) w)"
proof -
  have "submit tx (root_intent # emitted [root_frame data]) w
          = submit tx (emitted [root_frame data]) (submit tx [root_intent] w)"
    using submit_append [of tx "[root_intent]" "emitted [root_frame data]" w] by simp
  then show ?thesis
    by (simp add: process_json_def Let_def snd_create_node while_stack_eq root_frame_def
          root_intent_def)
qed

definition emitted_intents :: "('e, 's) tx \<Rightarrow> 's \<Rightarrow> json \<Rightarrow> intent list" where
  "emitted_intents tx s data = issued (snd (process_json tx data \<lparr>issued = [], store = s\<rparr>))"

lemma emitted_intents_eq: "emitted_intents tx s data = root_intent # emitted [root_frame data]"
  by (simp add: emitted_intents_def process_json_eq submit_def)

section \<open>The document as a tree of positions\<close>

fun children :: "json \<Rightarrow> json list" where
  "children (JDict kvs) = map snd kvs"
| "children (JList xs) = xs"
| "children (JPrim p) = []"

lemma elem_le_sum: "x \<in> set xs \<Longrightarrow> (f x :: nat) \<le> sum_list (map f xs)"
  by (induction xs) auto

lemma children_size: "c \<in> set (children v) \<Longrightarrow> jsize c < jsize v"
proof (cases v)
  case (JPrim p)
  assume "c \<in> set (children v)"
  with JPrim show ?thesis by simp
next
  case (JList xs)
  assume "c \<in> set (children v)"
  with JList have "c \<in> set xs" by simp
  from elem_le_sum [OF this, of jsize] show ?thesis by (simp add: JList)
next
  case (JDict kvs)
  assume "c \<in> set (children v)"
  with JDict obtain kv where kv: "kv \<in> set kvs" "c = snd kv" by auto
  from elem_le_sum [OF kv(1), of "\<lambda>kv. jsize (snd kv)"] show ?thesis by (simp add: JDict kv(2))
qed

function jpaths :: "json \<Rightarrow> nat list list" where
  "jpaths v =
     [] # concat (map (\<lambda>ic. map ((#) (fst ic)) (jpaths (snd ic))) (enumerate 0 (children v)))"
  by pat_completeness auto
termination
proof (relation "measure jsize")
  show "wf (measure jsize)" by simp
next
  fix v :: json and ic :: "nat \<times> json"
  assume "ic \<in> set (enumerate 0 (children v))"
  then have "fst ic < length (children v)" "children v ! fst ic = snd ic"
    by (simp_all add: in_set_enumerate_eq)
  then have "snd ic \<in> set (children v)" using nth_mem [of "fst ic" "children v"] by simp
  then show "(snd ic, v) \<in> measure jsize" by (simp add: children_size)
qed

declare jpaths.simps [simp del]

definition positions :: "json \<Rightarrow> nat list set" where
  "positions v = set (jpaths v)"

lemma jpaths_Nil: "[] \<in> set (jpaths v)"
  by (subst jpaths.simps) simp

lemma jpaths_Cons:
  "(i # \<pi>) \<in> set (jpaths v) \<longleftrightarrow> i < length (children v) \<and> \<pi> \<in> set (jpaths (children v ! i))"
proof -
  have "(i # \<pi>) \<in> set (jpaths v) \<longleftrightarrow>
          (\<exists>ic\<in>set (enumerate 0 (children v)). fst ic = i \<and> \<pi> \<in> set (jpaths (snd ic)))"
    by (subst jpaths.simps) auto
  also have "\<dots> \<longleftrightarrow> i < length (children v) \<and> \<pi> \<in> set (jpaths (children v ! i))"
    (is "?L \<longleftrightarrow> ?R")
  proof
    assume ?L
    then obtain ic where ic: "ic \<in> set (enumerate 0 (children v))" "fst ic = i"
      "\<pi> \<in> set (jpaths (snd ic))" by blast
    from ic(1) have "fst ic < length (children v)" "children v ! fst ic = snd ic"
      by (simp_all add: in_set_enumerate_eq)
    with ic(2,3) show ?R by simp
  next
    assume r: ?R
    then have "(i, children v ! i) \<in> set (enumerate 0 (children v))"
      by (simp add: in_set_enumerate_eq)
    moreover have "fst (i, children v ! i) = i \<and> \<pi> \<in> set (jpaths (snd (i, children v ! i)))"
      using r by simp
    ultimately show ?L by blast
  qed
  finally show ?thesis .
qed

abbreviation tlabel :: "tnode \<Rightarrow> string" where "tlabel n \<equiv> fst n"
abbreviation tprops :: "tnode \<Rightarrow> props" where "tprops n \<equiv> fst (snd n)"
abbreviation tvalue :: "tnode \<Rightarrow> json" where "tvalue n \<equiv> snd (snd n)"

lemma length_members: "length (members l v) = length (children v)"
  by (cases v) simp_all

lemma members_value: "i < length (children v) \<Longrightarrow> tvalue (members l v ! i) = children v ! i"
  by (cases v) (simp_all add: nth_enumerate_eq)

fun descend :: "tnode \<Rightarrow> nat list \<Rightarrow> tnode option" where
  "descend n [] = Some n"
| "descend n (i # \<pi>) =
     (if i < length (members (tlabel n) (tvalue n))
      then descend (members (tlabel n) (tvalue n) ! i) \<pi> else None)"

lemma descend_valid: "descend (l, p, v) \<pi> \<noteq> None \<longleftrightarrow> \<pi> \<in> set (jpaths v)"
proof (induction \<pi> arbitrary: l p v)
  case Nil
  show ?case by (simp add: jpaths_Nil)
next
  case (Cons i \<pi>)
  show ?case
  proof (cases "i < length (children v)")
    case True
    obtain l' p' v' where m: "members l v ! i = (l', p', v')" by (cases "members l v ! i") auto
    have v': "v' = children v ! i" using members_value [OF True, of l] m by simp
    show ?thesis using True Cons.IH [of l' p' v'] by (simp add: length_members m v' jpaths_Cons)
  next
    case False
    then show ?thesis by (simp add: length_members jpaths_Cons)
  qed
qed

lemma descend_append:
  "descend n (\<pi> @ \<rho>) = (case descend n \<pi> of None \<Rightarrow> None | Some m \<Rightarrow> descend m \<rho>)"
  by (induction \<pi> arbitrary: n) simp_all

lemma descend_primitive: "is_primitive (tvalue m) \<Longrightarrow> descend m \<pi> = Some n \<Longrightarrow> \<pi> = [] \<and> n = m"
  by (cases \<pi>) (auto simp: is_primitive_iff)

definition node_block :: "tnode \<Rightarrow> intent list" where
  "node_block n = concat (map (pair_of (tlabel n) (tprops n) ''HAS'') (members (tlabel n) (tvalue n)))"

lemma node_block_primitive: "is_primitive (tvalue m) \<Longrightarrow> node_block m = []"
  by (auto simp: node_block_def is_primitive_iff)

definition tnode_of :: "frame \<Rightarrow> tnode" where
  "tnode_of fr = (case fr of (pl, pp, rt, cur) \<Rightarrow> (pl, pp, cur))"

definition ok_frame :: "frame \<Rightarrow> bool" where
  "ok_frame fr = (case fr of (pl, pp, rt, cur) \<Rightarrow>
     \<not> is_primitive cur \<and> rel_type_or rt ''HAS'' = ''HAS'')"

lemma set_frame_pushes:
  "set (frame_pushes fr) =
     (\<lambda>m. (tlabel m, tprops m, Some ''HAS'', tvalue m)) `
       {m \<in> set (members (tlabel (tnode_of fr)) (tvalue (tnode_of fr))). \<not> is_primitive (tvalue m)}"
  by (cases fr) (auto simp: frame_pushes_def tnode_of_def push_of_def split: if_splits)

lemma ok_frame_pushes: "fr' \<in> set (frame_pushes fr) \<Longrightarrow> ok_frame fr'"
  by (auto simp: set_frame_pushes ok_frame_def rel_type_or_def)

lemma pushed_member:
  "fr' \<in> set (frame_pushes fr) \<Longrightarrow>
     tnode_of fr' \<in> set (members (tlabel (tnode_of fr)) (tvalue (tnode_of fr)))
       \<and> \<not> is_primitive (tvalue (tnode_of fr'))"
  by (auto simp: set_frame_pushes tnode_of_def)

lemma member_pushed:
  "m \<in> set (members (tlabel (tnode_of fr)) (tvalue (tnode_of fr))) \<Longrightarrow> \<not> is_primitive (tvalue m)
     \<Longrightarrow> \<exists>fr'\<in>set (frame_pushes fr). tnode_of fr' = m"
  by (auto simp: set_frame_pushes tnode_of_def)

lemma ok_frame_emits: "ok_frame fr \<Longrightarrow> frame_emits fr = node_block (tnode_of fr)"
  by (cases fr; cases "snd (snd (snd fr))")
     (auto simp: ok_frame_def frame_emits_def node_block_def tnode_of_def frame_rel_type_def
        is_primitive_def)

lemma ok_stack_step:
  "\<forall>fr\<in>set (f # stack). ok_frame fr \<Longrightarrow> \<forall>fr\<in>set (frame_pushes f @ stack). ok_frame fr"
  by (auto simp: ok_frame_pushes)

text \<open>Contiguity of every reachable node's block.\<close>

lemma emitted_block:
  "\<forall>fr\<in>set st. ok_frame fr \<Longrightarrow> fr \<in> set st \<Longrightarrow> descend (tnode_of fr) \<pi> = Some n
     \<Longrightarrow> \<exists>pre post. emitted st = pre @ node_block n @ post"
proof (induction st arbitrary: fr \<pi> rule: emitted.induct)
  case 1
  then show ?case by simp
next
  case (2 f stack)
  have ok': "\<forall>fr\<in>set (frame_pushes f @ stack). ok_frame fr"
    using "2.prems"(1) by (rule ok_stack_step)
  have okf: "ok_frame f" using "2.prems"(1) by simp
  have step: "emitted (f # stack) = node_block (tnode_of f) @ emitted (frame_pushes f @ stack)"
    by (simp add: ok_frame_emits [OF okf])
  have below: "\<exists>pre post. emitted (f # stack) = pre @ node_block n @ post"
    if "fr' \<in> set (frame_pushes f @ stack)" "descend (tnode_of fr') \<rho> = Some n" for fr' \<rho>
  proof -
    from "2.IH" [OF ok' that] obtain pre post
      where "emitted (frame_pushes f @ stack) = pre @ node_block n @ post" by blast
    then have "emitted (f # stack) = (node_block (tnode_of f) @ pre) @ node_block n @ post"
      by (simp add: ok_frame_emits [OF okf])
    then show ?thesis by blast
  qed
  show ?case
  proof (cases "fr = f")
    case False
    with "2.prems"(2) have "fr \<in> set (frame_pushes f @ stack)" by simp
    from below [OF this "2.prems"(3)] show ?thesis .
  next
    case True
    show ?thesis
    proof (cases \<pi>)
      case Nil
      with "2.prems"(3) True have "n = tnode_of f" by simp
      then have "emitted (f # stack) = [] @ node_block n @ emitted (frame_pushes f @ stack)"
        by (simp add: ok_frame_emits [OF okf])
      then show ?thesis by blast
    next
      case (Cons i \<rho>)
      let ?ms = "members (tlabel (tnode_of f)) (tvalue (tnode_of f))"
      from "2.prems"(3) True Cons have i: "i < length ?ms" and at': "descend (?ms ! i) \<rho> = Some n"
        by (auto split: if_splits)
      show ?thesis
      proof (cases "is_primitive (tvalue (?ms ! i))")
        case True
        from descend_primitive [OF True at'] have "n = ?ms ! i" by simp
        with True have "node_block n = []" by (simp add: node_block_primitive)
        then have "emitted (f # stack) = [] @ node_block n @ emitted (f # stack)" by simp
        then show ?thesis by blast
      next
        case False
        have "?ms ! i \<in> set ?ms" using i by simp
        from member_pushed [OF this False] obtain fr'
          where fr': "fr' \<in> set (frame_pushes f)" "tnode_of fr' = ?ms ! i" by blast
        from fr'(1) have "fr' \<in> set (frame_pushes f @ stack)" by simp
        from below [OF this] at' fr'(2) show ?thesis by simp
      qed
    qed
  qed
qed

section \<open>Endpoints of relationships\<close>

datatype exn = WriteError | IsADirectoryError | OSError | JSONDecodeError

fun endpoints_known :: "intent set \<Rightarrow> intent list \<Rightarrow> bool" where
  "endpoints_known S [] = True"
| "endpoints_known S (CreateNode l p # rest) = endpoints_known (insert (CreateNode l p) S) rest"
| "endpoints_known S (CreateRelationship fl fp tl0 tp ty # rest) =
     (CreateNode fl fp \<in> S \<and> CreateNode tl0 tp \<in> S
        \<and> endpoints_known (insert (CreateRelationship fl fp tl0 tp ty) S) rest)"

lemma endpoints_known_append:
  "endpoints_known S (xs @ ys) = (endpoints_known S xs \<and> endpoints_known (S \<union> set xs) ys)"
proof (induction xs arbitrary: S)
  case Nil
  show ?case by simp
next
  case (Cons x xs)
  show ?case by (cases x) (simp_all add: Cons.IH)
qed

lemma endpoints_known_mono: "endpoints_known S xs \<Longrightarrow> S \<subseteq> T \<Longrightarrow> endpoints_known T xs"
proof (induction xs arbitrary: S T)
  case Nil
  show ?case by simp
next
  case (Cons x xs)
  have sub: "insert x S \<subseteq> insert x T" using Cons.prems(2) by auto
  show ?case
  proof (cases x)
    case (CreateNode l p)
    with Cons.prems(1) have "endpoints_known (insert x S) xs" by simp
    from Cons.IH [OF this sub] show ?thesis by (simp add: CreateNode)
  next
    case (CreateRelationship fl fp tl0 tp ty)
    with Cons.prems(1) have k: "CreateNode fl fp \<in> S" "CreateNode tl0 tp \<in> S"
      "endpoints_known (insert x S) xs" by simp_all
    from Cons.IH [OF k(3) sub] k(1,2) Cons.prems(2) show ?thesis
      by (auto simp: CreateRelationship)
  qed
qed

lemma endpoints_known_nth:
  "endpoints_known S xs \<Longrightarrow> i < length xs \<Longrightarrow> xs ! i = CreateRelationship fl fp tl0 tp ty
     \<Longrightarrow> CreateNode fl fp \<in> S \<union> set (take i xs) \<and> CreateNode tl0 tp \<in> S \<union> set (take i xs)"
proof (induction xs arbitrary: S i)
  case Nil
  then show ?case by simp
next
  case (Cons x xs)
  show ?case
  proof (cases i)
    case 0
    with Cons.prems show ?thesis by simp
  next
    case (Suc j)
    have known: "endpoints_known (insert x S) xs" using Cons.prems(1) by (cases x) simp_all
    have "j < length xs" "xs ! j = CreateRelationship fl fp tl0 tp ty"
      using Cons.prems(2,3) Suc by simp_all
    from Cons.IH [OF known this] show ?thesis by (simp add: Suc)
  qed
qed

lemma block_known:
  "CreateNode pl pp \<in> S \<Longrightarrow> endpoints_known S (concat (map (pair_of pl pp ty) ms))"
proof (induction ms arbitrary: S)
  case Nil
  show ?case by simp
next
  case (Cons m ms)
  have "endpoints_known (S \<union> set (pair_of pl pp ty m)) (concat (map (pair_of pl pp ty) ms))"
    using Cons.prems by (intro Cons.IH) simp
  moreover have "endpoints_known S (pair_of pl pp ty m)"
    using Cons.prems by (simp add: pair_of_def)
  ultimately show ?case by (simp add: endpoints_known_append)
qed

definition frame_known :: "intent set \<Rightarrow> frame \<Rightarrow> bool" where
  "frame_known S fr =
     (is_primitive (tvalue (tnode_of fr)) \<or> CreateNode (tlabel (tnode_of fr)) (tprops (tnode_of fr)) \<in> S)"

lemma frame_emits_known: "frame_known S fr \<Longrightarrow> endpoints_known S (frame_emits fr)"
proof -
  assume k: "frame_known S fr"
  obtain pl pp rt cur where fr: "fr = (pl, pp, rt, cur)" by (cases fr) auto
  show ?thesis
  proof (cases "is_primitive cur")
    case True
    then show ?thesis by (auto simp: fr frame_emits_def is_primitive_iff)
  next
    case False
    with k have "CreateNode pl pp \<in> S" by (simp add: frame_known_def fr tnode_of_def)
    from block_known [OF this] have
      "endpoints_known S (concat (map (pair_of pl pp (frame_rel_type fr)) (members pl cur)))" .
    with False show ?thesis by (cases cur) (simp_all add: fr frame_emits_def is_primitive_def)
  qed
qed

lemma pushed_known: "fr' \<in> set (frame_pushes fr) \<Longrightarrow> frame_known (set (frame_emits fr)) fr'"
proof -
  assume p: "fr' \<in> set (frame_pushes fr)"
  obtain pl pp rt cur where fr: "fr = (pl, pp, rt, cur)" by (cases fr) auto
  from pushed_member [OF p] have m: "tnode_of fr' \<in> set (members pl cur)"
    by (simp add: fr tnode_of_def)
  then have "\<not> is_primitive cur" by (auto simp: is_primitive_iff)
  then have e: "frame_emits fr = concat (map (pair_of pl pp (frame_rel_type fr)) (members pl cur))"
    by (cases cur) (simp_all add: fr frame_emits_def is_primitive_def)
  have "CreateNode (tlabel (tnode_of fr')) (tprops (tnode_of fr'))
          \<in> set (pair_of pl pp (frame_rel_type fr) (tnode_of fr'))"
    by (simp add: pair_of_def)
  with m have "CreateNode (tlabel (tnode_of fr')) (tprops (tnode_of fr')) \<in> set (frame_emits fr)"
    unfolding e by auto
  then show ?thesis by (simp add: frame_known_def)
qed

lemma emitted_known: "\<forall>fr\<in>set st. frame_known S fr \<Longrightarrow> endpoints_known S (emitted st)"
proof (induction st arbitrary: S rule: emitted.induct)
  case 1
  show ?case by simp
next
  case (2 f stack)
  have a: "endpoints_known S (frame_emits f)" using "2.prems" by (simp add: frame_emits_known)
  have "\<forall>fr\<in>set (frame_pushes f @ stack). frame_known (S \<union> set (frame_emits f)) fr"
  proof
    fix fr assume "fr \<in> set (frame_pushes f @ stack)"
    then consider "fr \<in> set (frame_pushes f)" | "fr \<in> set stack" by auto
    then show "frame_known (S \<union> set (frame_emits f)) fr"
    proof cases
      case 1
      from pushed_known [OF 1] show ?thesis by (auto simp: frame_known_def)
    next
      case 2
      with "2.prems" show ?thesis by (auto simp: frame_known_def)
    qed
  qed
  from "2.IH" [OF this] a show ?case by (simp add: endpoints_known_append)
qed

lemma emitted_intents_known: "endpoints_known {} (emitted_intents tx s v)"
proof -
  have "\<forall>fr\<in>set [root_frame v]. frame_known {root_intent} fr"
    by (simp add: frame_known_def root_frame_def root_intent_def tnode_of_def)
  from emitted_known [OF this] show ?thesis
    by (simp add: emitted_intents_eq root_intent_def)
qed

lemma example_a1:
  "emitted_intents (\<lambda>stmt s. Inr s :: exn + unit) () (JDict [(''a'', JPrim (PInt 1))]) =
     [CreateNode ''Root'' [(''name'', PStr ''root'')],
      CreateNode ''A'' [(''name'', PStr ''a''), (''value'', PInt 1)],
      CreateRelationship ''Root'' [(''name'', PStr ''root'')] ''A''
        [(''name'', PStr ''a''), (''value'', PInt 1)] ''HAS'']"
  by code_simp


section \<open>Blocks of one container and node-relationship pairs\<close>

lemma ok_root_frame: "\<not> is_primitive v \<Longrightarrow> ok_frame (root_frame v)"
  by (simp add: ok_frame_def root_frame_def rel_type_or_def)

definition root_tnode :: "json \<Rightarrow> tnode" where
  "root_tnode v = (''Root'', [(''name'', PStr ''root'')], v)"

lemma tnode_of_root_frame: "tnode_of (root_frame v) = root_tnode v"
  by (simp add: tnode_of_def root_frame_def root_tnode_def)








section \<open>The store\<close>

type_synonym node = "string \<times> props"

record graph =
  nodes :: "node list"
  rels :: "(node \<times> string \<times> node) list"

text \<open>
  Modelled from the spec: the store's write protocol, which is outside the repository
  (section 6: node upsert = match-or-create a node with given label and property set;
  relationship upsert = match both endpoint nodes by label+properties, match-or-create a
  directed edge of given type between them). Nodes and edges are kept in lists, so that a
  duplicate would be visible.
\<close>

fun upsert :: "intent \<Rightarrow> graph \<Rightarrow> exn + graph" where
  "upsert (CreateNode l p) g =
     Inr (if (l, p) \<in> set (nodes g) then g else g\<lparr>nodes := nodes g @ [(l, p)]\<rparr>)"
| "upsert (CreateRelationship fl fp tl0 tp ty) g =
     Inr (if (fl, fp) \<in> set (nodes g) \<and> (tl0, tp) \<in> set (nodes g)
             \<and> ((fl, fp), ty, (tl0, tp)) \<notin> set (rels g)
          then g\<lparr>rels := rels g @ [((fl, fp), ty, (tl0, tp))]\<rparr> else g)"

fun settled :: "graph \<Rightarrow> intent \<Rightarrow> bool" where
  "settled g (CreateNode l p) = ((l, p) \<in> set (nodes g))"
| "settled g (CreateRelationship fl fp tl0 tp ty) = (((fl, fp), ty, (tl0, tp)) \<in> set (rels g))"

lemma exec_upsert_nodes: "set (nodes g) \<subseteq> set (nodes (exec upsert g x))"
  by (cases x) (auto simp: exec_def)

lemma exec_upsert_rels: "set (rels g) \<subseteq> set (rels (exec upsert g x))"
  by (cases x) (auto simp: exec_def)

lemma settled_exec: "settled g y \<Longrightarrow> settled (exec upsert g x) y"
  using exec_upsert_nodes [of g x] exec_upsert_rels [of g x] by (cases y) auto

lemma settled_foldl: "settled g y \<Longrightarrow> settled (foldl (exec upsert) g xs) y"
  by (induction xs arbitrary: g) (simp_all add: settled_exec)

lemma nodes_foldl: "n \<in> set (nodes g) \<Longrightarrow> n \<in> set (nodes (foldl (exec upsert) g xs))"
  using settled_foldl [of g "CreateNode (fst n) (snd n)" xs] by simp

lemma settled_noop: "settled g x \<Longrightarrow> exec upsert g x = g"
  by (cases x) (auto simp: exec_def)

lemma all_settled_noop: "\<forall>x\<in>set xs. settled g x \<Longrightarrow> foldl (exec upsert) g xs = g"
  by (induction xs) (simp_all add: settled_noop)

definition known_in :: "intent set \<Rightarrow> graph \<Rightarrow> bool" where
  "known_in S g = (\<forall>l p. CreateNode l p \<in> S \<longrightarrow> (l, p) \<in> set (nodes g))"

lemma exec_settles:
  "known_in S g \<Longrightarrow> endpoints_known S (x # xs) \<Longrightarrow> settled (exec upsert g x) x"
  by (cases x) (auto simp: exec_def known_in_def)

lemma known_in_step: "known_in S g \<Longrightarrow> settled (exec upsert g x) x \<Longrightarrow> known_in (insert x S) (exec upsert g x)"
  using exec_upsert_nodes [of g x] by (cases x) (auto simp: known_in_def)

lemma first_pass_settles:
  "known_in S g \<Longrightarrow> endpoints_known S xs \<Longrightarrow> \<forall>x\<in>set xs. settled (foldl (exec upsert) g xs) x"
proof (induction xs arbitrary: S g)
  case Nil
  show ?case by simp
next
  case (Cons x xs)
  have s: "settled (exec upsert g x) x" using Cons.prems by (rule exec_settles)
  have k: "known_in (insert x S) (exec upsert g x)" using Cons.prems(1) s by (rule known_in_step)
  have e: "endpoints_known (insert x S) xs" using Cons.prems(2) by (cases x) simp_all
  from Cons.IH [OF k e] settled_foldl [OF s, of xs] show ?case by simp
qed

lemma replay_idempotent:
  "endpoints_known {} xs \<Longrightarrow>
     foldl (exec upsert) (foldl (exec upsert) g xs) xs = foldl (exec upsert) g xs"
proof -
  assume e: "endpoints_known {} xs"
  have "known_in {} g" by (simp add: known_in_def)
  from first_pass_settles [OF this e] show ?thesis by (rule all_settled_noop)
qed

definition no_duplicates :: "graph \<Rightarrow> bool" where
  "no_duplicates g = (distinct (nodes g) \<and> distinct (rels g))"

lemma exec_no_duplicates: "no_duplicates g \<Longrightarrow> no_duplicates (exec upsert g x)"
  by (cases x) (auto simp: exec_def no_duplicates_def)

lemma foldl_no_duplicates: "no_duplicates g \<Longrightarrow> no_duplicates (foldl (exec upsert) g xs)"
  by (induction xs arbitrary: g) (simp_all add: exec_no_duplicates)

lemma store_process_json:
  "store (snd (process_json tx v w)) = foldl (exec tx) (store w) (emitted_intents tx' s' v)"
  by (simp add: process_json_eq submit_def emitted_intents_eq)

section \<open>\<open>project_graph_in_gds\<close>\<close>







section \<open>Files and directories\<close>

text \<open>
  A directory entry: a file with its name and what reading it gives (an error or its text),
  or a subdirectory with its name and entries.
\<close>

datatype entry = File string "exn + string" | Dir string "entry list"

fun entry_name :: "entry \<Rightarrow> string" where
  "entry_name (File name contents) = name"
| "entry_name (Dir name entries) = name"

text \<open>
  \<open>fnmatch\<close> for the patterns without brackets: \<open>*\<close> matches any run of characters,
  \<open>?\<close> any one character, every other character itself (case-sensitive, as on POSIX).
\<close>

fun fnmatch :: "string \<Rightarrow> string \<Rightarrow> bool" where
  "fnmatch [] [] = True"
| "fnmatch (c # cs) [] = False"
| "fnmatch [] (p # ps) = (p = CHR ''*'' \<and> fnmatch [] ps)"
| "fnmatch (c # cs) (p # ps) =
     (if p = CHR ''*'' then fnmatch (c # cs) ps \<or> fnmatch cs (p # ps)
      else (p = CHR ''?'' \<or> p = c) \<and> fnmatch cs ps)"

text \<open>
  \<open>Path.glob(pattern)\<close> for a pattern of one component: the entries of the directory itself
  whose name matches, in the order the directory lists them; it does not descend.
\<close>

definition glob :: "string \<Rightarrow> entry list \<Rightarrow> entry list" where
  "glob pattern data_directory = filter (\<lambda>e. fnmatch (entry_name e) pattern) data_directory"

fun read_file :: "entry \<Rightarrow> exn + string" where
  "read_file (File name contents) = contents"
| "read_file (Dir name entries) = Inl IsADirectoryError"

text \<open>\<open>json.loads\<close> is the parameter \<open>loads\<close>; \<open>@safe\<close> turns its exception into a value.\<close>

definition parse_json :: "(string \<Rightarrow> exn + json) \<Rightarrow> string \<Rightarrow> exn + json" where
  "parse_json loads data = loads data"

definition json_parsing_pipeline :: "(string \<Rightarrow> exn + json) \<Rightarrow> entry \<Rightarrow> exn + json" where
  "json_parsing_pipeline loads path =
     (case read_file path of Inl e \<Rightarrow> Inl e | Inr contents \<Rightarrow> parse_json loads contents)"

definition process_file ::
  "(string \<Rightarrow> exn + json) \<Rightarrow> (json \<Rightarrow> 'w \<Rightarrow> 'r \<times> 'w) \<Rightarrow> entry \<Rightarrow> 'w \<Rightarrow> (exn + 'r) \<times> 'w" where
  "process_file loads processor file_path w =
     (case json_parsing_pipeline loads file_path of
        Inl e \<Rightarrow> (Inl e, w)
      | Inr data \<Rightarrow> (let res = processor data w in (Inr (fst res), snd res)))"

text \<open>
  \<open>asyncio.gather\<close>: the results come back in the order of the tasks. The tasks are run here
  one after the other, which is one of the schedules the event loop may choose.
\<close>

fun gather :: "('w \<Rightarrow> 'r \<times> 'w) list \<Rightarrow> 'w \<Rightarrow> 'r list \<times> 'w" where
  "gather [] w = ([], w)"
| "gather (task # tasks) w =
     (let r = task w; rest = gather tasks (snd r) in (fst r # fst rest, snd rest))"

definition process_directory ::
  "(string \<Rightarrow> exn + json) \<Rightarrow> (json \<Rightarrow> 'w \<Rightarrow> 'r \<times> 'w) \<Rightarrow> entry list \<Rightarrow> 'w
     \<Rightarrow> (exn + 'r) list \<times> 'w" where
  "process_directory loads processor data_directory w =
     (let json_files = glob ''*.json'' data_directory;
          tasks = map (process_file loads processor) json_files
      in gather tasks w)"

lemma fnmatch_star:
  "fnmatch name (CHR ''*'' # ps) \<longleftrightarrow> (\<exists>pre suf. name = pre @ suf \<and> fnmatch suf ps)"
proof (induction name)
  case Nil
  show ?case by simp
next
  case (Cons c cs)
  show ?case
  proof
    assume "fnmatch (c # cs) (CHR ''*'' # ps)"
    then consider "fnmatch (c # cs) ps" | "fnmatch cs (CHR ''*'' # ps)" by auto
    then show "\<exists>pre suf. c # cs = pre @ suf \<and> fnmatch suf ps"
    proof cases
      case 1
      then have "c # cs = [] @ (c # cs) \<and> fnmatch (c # cs) ps" by simp
      then show ?thesis by blast
    next
      case 2
      with Cons.IH obtain pre suf where "cs = pre @ suf" "fnmatch suf ps" by blast
      then have "c # cs = (c # pre) @ suf \<and> fnmatch suf ps" by simp
      then show ?thesis by blast
    qed
  next
    assume "\<exists>pre suf. c # cs = pre @ suf \<and> fnmatch suf ps"
    then obtain pre suf where ps: "c # cs = pre @ suf" "fnmatch suf ps" by blast
    show "fnmatch (c # cs) (CHR ''*'' # ps)"
    proof (cases pre)
      case Nil
      with ps have "fnmatch (c # cs) ps" by simp
      then show ?thesis by simp
    next
      case (Cons a pre')
      with ps have "cs = pre' @ suf" by simp
      with ps(2) Cons.IH have "fnmatch cs (CHR ''*'' # ps)" by blast
      then show ?thesis by simp
    qed
  qed
qed

lemma fnmatch_literal:
  "CHR ''*'' \<notin> set pat \<Longrightarrow> CHR ''?'' \<notin> set pat \<Longrightarrow> fnmatch name pat \<longleftrightarrow> name = pat"
  by (induction name pat rule: fnmatch.induct) auto

lemma fnmatch_json: "fnmatch name ''*.json'' \<longleftrightarrow> (\<exists>stem. name = stem @ ''.json'')"
proof -
  have "fnmatch suf ''.json'' \<longleftrightarrow> suf = ''.json''" for suf
    by (rule fnmatch_literal) simp_all
  then show ?thesis by (simp add: fnmatch_star)
qed

lemma glob_append: "glob pat (xs @ ys) = glob pat xs @ glob pat ys"
  by (simp add: glob_def)

lemma process_directory_eq:
  "process_directory loads processor dir w
     = gather (map (process_file loads processor) (glob ''*.json'' dir)) w"
  by (simp add: process_directory_def)

lemma length_gather: "length (fst (gather tasks w)) = length tasks"
  by (induction tasks arbitrary: w) (simp_all add: Let_def)

lemma gather_append:
  "gather (ts1 @ ts2) w =
     (fst (gather ts1 w) @ fst (gather ts2 (snd (gather ts1 w))),
      snd (gather ts2 (snd (gather ts1 w))))"
  by (induction ts1 arbitrary: w) (simp_all add: Let_def)

lemma process_file_Dir:
  "process_file loads processor (Dir name entries) = (\<lambda>w. (Inl IsADirectoryError, w))"
  by (rule ext) (simp add: process_file_def json_parsing_pipeline_def)

definition outcome :: "(string \<Rightarrow> exn + json) \<Rightarrow> entry \<Rightarrow> exn + ('e + unit)" where
  "outcome loads path =
     (case json_parsing_pipeline loads path of Inl e \<Rightarrow> Inl e | Inr data \<Rightarrow> Inr (Inr ()))"

lemma process_file_process_json:
  "fst (process_file loads (process_json tx) path w) = outcome loads path"
  by (simp add: process_file_def outcome_def process_json_eq Let_def split: sum.splits)

lemma gather_results:
  "fst (gather (map (process_file loads (process_json tx)) docs) w) = map (outcome loads) docs"
  by (induction docs arbitrary: w) (simp_all add: Let_def process_file_process_json)

lemma process_file_failed:
  "json_parsing_pipeline loads path = Inl err \<Longrightarrow> process_file loads processor path w = (Inl err, w)"
  by (simp add: process_file_def)

lemma gather_skip_failed:
  assumes "json_parsing_pipeline loads e = Inl err"
  shows "snd (gather (map (process_file loads processor) (xs @ e # ys)) w)
           = snd (gather (map (process_file loads processor) (xs @ ys)) w)"
  by (simp add: gather_append Let_def process_file_failed [OF assms])

text \<open>A stand-in for \<open>json.loads\<close> in the examples: it accepts the text \<open>{}\<close> only.\<close>

definition loads_example :: "string \<Rightarrow> exn + json" where
  "loads_example s = (if s = ''{}'' then Inr (JDict []) else Inl JSONDecodeError)"

text \<open>Example entries, a store that accepts every statement, and the empty session.\<close>

definition file_a :: entry where "file_a = File ''a.json'' (Inr ''{}'')"
definition file_b :: entry where "file_b = File ''b.json'' (Inr ''{}'')"
definition file_bad :: entry where "file_bad = File ''bad.json'' (Inr ''{'')"
definition file_notes :: entry where "file_notes = File ''notes.txt'' (Inr ''x'')"
definition dir_sub :: entry where "dir_sub = Dir ''sub'' [File ''c.json'' (Inr ''{}'')]"

definition accept :: "(exn, unit) tx" where "accept stmt s = Inr s"

definition session0 :: "unit world" where "session0 = \<lparr>issued = [], store = ()\<rparr>"

section \<open>The graph rebuilt from the emitted statements\<close>

definition root_node :: node where
  "root_node = (''Root'', [(''name'', PStr ''root'')])"

text \<open>The containment relations: one pair (source node, target node) per relationship statement.\<close>

definition rel_edges :: "intent list \<Rightarrow> (node \<times> node) set" where
  "rel_edges out = set (concat (map (\<lambda>x. case x of
       CreateRelationship fl fp tl0 tp ty \<Rightarrow> [((fl, fp), (tl0, tp))] | CreateNode l p \<Rightarrow> []) out))"

definition node_intents :: "intent list \<Rightarrow> node set" where
  "node_intents out = set (concat (map (\<lambda>x. case x of
       CreateNode l p \<Rightarrow> [(l, p)] | CreateRelationship fl fp tl0 tp ty \<Rightarrow> []) out))"

text \<open>The nodes of the graph spanned by the relations, with the root.\<close>

definition tree_nodes :: "intent list \<Rightarrow> node set" where
  "tree_nodes out = insert root_node (fst ` rel_edges out \<union> snd ` rel_edges out)"

text \<open>The (label, properties) pair that the mapping gives to the position \<open>\<pi>\<close> of the document.\<close>

definition node_at :: "json \<Rightarrow> nat list \<Rightarrow> node" where
  "node_at v \<pi> = (case descend (root_tnode v) \<pi> of
       Some n \<Rightarrow> (tlabel n, tprops n) | None \<Rightarrow> root_node)"

text \<open>
  An isomorphism between the tree of positions of the document (a position \<open>\<pi>\<close> has the
  children \<open>\<pi> @ [i]\<close>) and the rebuilt graph, sending the top position to the root node.
\<close>

definition isomorphism :: "(nat list \<Rightarrow> node) \<Rightarrow> json \<Rightarrow> intent list \<Rightarrow> bool" where
  "isomorphism \<phi> v out =
     (bij_betw \<phi> (positions v) (tree_nodes out) \<and> \<phi> [] = root_node
      \<and> (\<forall>\<pi>\<in>positions v. \<forall>\<rho>\<in>positions v.
            ((\<phi> \<pi>, \<phi> \<rho>) \<in> rel_edges out) = (\<exists>i. \<rho> = \<pi> @ [i])))"

definition tree_isomorphic :: "json \<Rightarrow> intent list \<Rightarrow> bool" where
  "tree_isomorphic v out = (\<exists>\<phi>. isomorphism \<phi> v out)"

lemma rel_edges_iff:
  "(a, b) \<in> rel_edges out \<longleftrightarrow> (\<exists>ty. CreateRelationship (fst a) (snd a) (fst b) (snd b) ty \<in> set out)"
proof (induction out)
  case Nil
  show ?case by (simp add: rel_edges_def)
next
  case (Cons x out)
  have "rel_edges (x # out) =
          (case x of CreateRelationship fl fp tl0 tp ty \<Rightarrow> {((fl, fp), (tl0, tp))} | CreateNode l p \<Rightarrow> {})
            \<union> rel_edges out"
    by (cases x) (simp_all add: rel_edges_def)
  with Cons.IH show ?case by (cases x; cases a; cases b) auto
qed

lemma node_intents_iff: "a \<in> node_intents out \<longleftrightarrow> CreateNode (fst a) (snd a) \<in> set out"
proof (induction out)
  case Nil
  show ?case by (simp add: node_intents_def)
next
  case (Cons x out)
  have "node_intents (x # out) =
          (case x of CreateNode l p \<Rightarrow> {(l, p)} | CreateRelationship fl fp tl0 tp ty \<Rightarrow> {})
            \<union> node_intents out"
    by (cases x) (simp_all add: node_intents_def)
  with Cons.IH show ?case by (cases x; cases a) auto
qed

lemma emitted_subset:
  "\<forall>fr\<in>set st. ok_frame fr \<Longrightarrow> x \<in> set (emitted st)
     \<Longrightarrow> \<exists>fr\<in>set st. \<exists>\<pi> n. descend (tnode_of fr) \<pi> = Some n \<and> x \<in> set (node_block n)"
proof (induction st rule: emitted.induct)
  case 1
  then show ?case by simp
next
  case (2 f stack)
  have ok': "\<forall>fr\<in>set (frame_pushes f @ stack). ok_frame fr"
    using "2.prems"(1) by (rule ok_stack_step)
  have okf: "ok_frame f" using "2.prems"(1) by simp
  from "2.prems"(2) consider "x \<in> set (node_block (tnode_of f))"
    | "x \<in> set (emitted (frame_pushes f @ stack))"
    by (auto simp: ok_frame_emits [OF okf])
  then show ?case
  proof cases
    case 1
    have "descend (tnode_of f) [] = Some (tnode_of f) \<and> x \<in> set (node_block (tnode_of f))"
      using 1 by simp
    then have "\<exists>\<pi> n. descend (tnode_of f) \<pi> = Some n \<and> x \<in> set (node_block n)" by blast
    then show ?thesis by simp
  next
    case 2
    from "2.IH" [OF ok' 2] obtain fr' \<pi> n
      where fr': "fr' \<in> set (frame_pushes f @ stack)" "descend (tnode_of fr') \<pi> = Some n"
        "x \<in> set (node_block n)" by blast
    show ?thesis
    proof (cases "fr' \<in> set stack")
      case True
      with fr'(2,3) show ?thesis by (meson list.set_intros(2))
    next
      case False
      with fr'(1) have "fr' \<in> set (frame_pushes f)" by simp
      from pushed_member [OF this]
      have "tnode_of fr' \<in> set (members (tlabel (tnode_of f)) (tvalue (tnode_of f)))" by simp
      then obtain i where i: "i < length (members (tlabel (tnode_of f)) (tvalue (tnode_of f)))"
        "members (tlabel (tnode_of f)) (tvalue (tnode_of f)) ! i = tnode_of fr'"
        by (auto simp: in_set_conv_nth)
      then have "descend (tnode_of f) (i # \<pi>) = Some n \<and> x \<in> set (node_block n)"
        using fr'(2,3) by simp
      then have "\<exists>\<pi> n. descend (tnode_of f) \<pi> = Some n \<and> x \<in> set (node_block n)" by blast
      then show ?thesis by simp
    qed
  qed
qed

lemma in_emitted_intents:
  assumes "\<not> is_primitive v"
  shows "x \<in> set (emitted_intents tx s v) \<longleftrightarrow>
           x = root_intent \<or> (\<exists>\<pi> n. descend (root_tnode v) \<pi> = Some n \<and> x \<in> set (node_block n))"
proof -
  have ok: "\<forall>fr\<in>set [root_frame v]. ok_frame fr" using assms by (simp add: ok_root_frame)
  have a: "\<exists>\<pi> n. descend (root_tnode v) \<pi> = Some n \<and> x \<in> set (node_block n)"
    if "x \<in> set (emitted [root_frame v])"
    using emitted_subset [OF ok that] by (simp add: tnode_of_root_frame)
  have b: "x \<in> set (emitted [root_frame v])"
    if "descend (root_tnode v) \<pi> = Some n" "x \<in> set (node_block n)" for \<pi> n
  proof -
    have "descend (tnode_of (root_frame v)) \<pi> = Some n" using that(1) by (simp add: tnode_of_root_frame)
    from emitted_block [OF ok _ this] obtain pre post
      where "emitted [root_frame v] = pre @ node_block n @ post" by auto
    with that(2) show ?thesis by simp
  qed
  have "set (emitted_intents tx s v) = insert root_intent (set (emitted [root_frame v]))"
    by (simp add: emitted_intents_eq)
  with a b show ?thesis by blast
qed

lemma in_node_block:
  "x \<in> set (node_block n) \<longleftrightarrow>
     (\<exists>i<length (members (tlabel n) (tvalue n)).
        x = CreateNode (tlabel (members (tlabel n) (tvalue n) ! i)) (tprops (members (tlabel n) (tvalue n) ! i))
        \<or> x = CreateRelationship (tlabel n) (tprops n)
                (tlabel (members (tlabel n) (tvalue n) ! i)) (tprops (members (tlabel n) (tvalue n) ! i)) ''HAS'')"
proof -
  let ?ms = "members (tlabel n) (tvalue n)"
  have "x \<in> set (node_block n) \<longleftrightarrow> (\<exists>m\<in>set ?ms. x \<in> set (pair_of (tlabel n) (tprops n) ''HAS'' m))"
    by (simp add: node_block_def)
  also have "\<dots> \<longleftrightarrow> (\<exists>i<length ?ms. x \<in> set (pair_of (tlabel n) (tprops n) ''HAS'' (?ms ! i)))"
    by (metis in_set_conv_nth)
  also have "\<dots> \<longleftrightarrow> (\<exists>i<length ?ms.
        x = CreateNode (tlabel (?ms ! i)) (tprops (?ms ! i))
        \<or> x = CreateRelationship (tlabel n) (tprops n) (tlabel (?ms ! i)) (tprops (?ms ! i)) ''HAS'')"
    by (simp add: pair_of_def)
  finally show ?thesis .
qed

lemma descend_snoc:
  "descend n0 (\<pi> @ [i]) = Some m \<longleftrightarrow>
     (\<exists>n. descend n0 \<pi> = Some n \<and> i < length (members (tlabel n) (tvalue n))
          \<and> m = members (tlabel n) (tvalue n) ! i)"
  by (auto simp: descend_append split: option.splits if_splits)

lemma positions_iff: "\<pi> \<in> positions v \<longleftrightarrow> descend (root_tnode v) \<pi> \<noteq> None"
  unfolding positions_def root_tnode_def by (rule descend_valid [symmetric])

lemma position_prefix: "\<pi> @ [i] \<in> positions v \<Longrightarrow> \<pi> \<in> positions v"
  by (auto simp: positions_iff descend_append split: option.splits)

lemma node_at_Some: "descend (root_tnode v) \<pi> = Some n \<Longrightarrow> node_at v \<pi> = (tlabel n, tprops n)"
  by (simp add: node_at_def)

lemma node_at_root: "node_at v [] = root_node"
  by (simp add: node_at_def root_tnode_def root_node_def)

lemma edges_container:
  assumes "\<not> is_primitive v"
  shows "(a, b) \<in> rel_edges (emitted_intents tx s v) \<longleftrightarrow>
           (\<exists>\<pi> i. \<pi> @ [i] \<in> positions v \<and> a = node_at v \<pi> \<and> b = node_at v (\<pi> @ [i]))"
proof
  assume "(a, b) \<in> rel_edges (emitted_intents tx s v)"
  then obtain ty where "CreateRelationship (fst a) (snd a) (fst b) (snd b) ty
                          \<in> set (emitted_intents tx s v)"
    by (auto simp: rel_edges_iff)
  then obtain \<pi> n where d: "descend (root_tnode v) \<pi> = Some n"
    and x: "CreateRelationship (fst a) (snd a) (fst b) (snd b) ty \<in> set (node_block n)"
    using in_emitted_intents [OF assms, of "CreateRelationship (fst a) (snd a) (fst b) (snd b) ty" tx s]
    by (auto simp: root_intent_def)
  from x obtain i where i: "i < length (members (tlabel n) (tvalue n))"
    and ab: "fst a = tlabel n" "snd a = tprops n"
      "fst b = tlabel (members (tlabel n) (tvalue n) ! i)"
      "snd b = tprops (members (tlabel n) (tvalue n) ! i)"
    unfolding in_node_block by auto
  have d': "descend (root_tnode v) (\<pi> @ [i]) = Some (members (tlabel n) (tvalue n) ! i)"
    using d i by (simp add: descend_snoc)
  have "\<pi> @ [i] \<in> positions v" using d' by (simp add: positions_iff)
  moreover have "a = node_at v \<pi>" using d ab(1,2) by (simp add: node_at_Some prod_eq_iff)
  moreover have "b = node_at v (\<pi> @ [i])" using d' ab(3,4) by (simp add: node_at_Some prod_eq_iff)
  ultimately show "\<exists>\<pi> i. \<pi> @ [i] \<in> positions v \<and> a = node_at v \<pi> \<and> b = node_at v (\<pi> @ [i])"
    by blast
next
  assume "\<exists>\<pi> i. \<pi> @ [i] \<in> positions v \<and> a = node_at v \<pi> \<and> b = node_at v (\<pi> @ [i])"
  then obtain \<pi> i where p: "\<pi> @ [i] \<in> positions v" and a: "a = node_at v \<pi>"
    and b: "b = node_at v (\<pi> @ [i])" by blast
  from p obtain m where m: "descend (root_tnode v) (\<pi> @ [i]) = Some m"
    by (auto simp: positions_iff)
  then obtain n where n: "descend (root_tnode v) \<pi> = Some n"
    "i < length (members (tlabel n) (tvalue n))" "m = members (tlabel n) (tvalue n) ! i"
    by (auto simp: descend_snoc)
  have "CreateRelationship (tlabel n) (tprops n) (tlabel m) (tprops m) ''HAS'' \<in> set (node_block n)"
    unfolding in_node_block using n(2,3) by blast
  with n(1) have "CreateRelationship (tlabel n) (tprops n) (tlabel m) (tprops m) ''HAS''
                    \<in> set (emitted_intents tx s v)"
    using in_emitted_intents [OF assms,
            of "CreateRelationship (tlabel n) (tprops n) (tlabel m) (tprops m) ''HAS''" tx s]
    by blast
  moreover have "a = (tlabel n, tprops n)" using a n(1) by (simp add: node_at_Some)
  moreover have "b = (tlabel m, tprops m)" using b m by (simp add: node_at_Some)
  ultimately show "(a, b) \<in> rel_edges (emitted_intents tx s v)"
    by (auto simp: rel_edges_iff)
qed

lemma positions_primitive: "positions (JPrim p) = {[]}"
proof -
  have "jpaths (JPrim p) = [[]]" by (subst jpaths.simps) simp
  then show ?thesis by (simp add: positions_def)
qed

lemma edges_primitive: "rel_edges (emitted_intents tx s (JPrim p)) = {}"
  by (simp add: emitted_intents_eq root_intent_def root_frame_def frame_emits_def
        frame_pushes_def rel_edges_def)

lemma edges_char:
  "(a, b) \<in> rel_edges (emitted_intents tx s v) \<longleftrightarrow>
     (\<exists>\<pi> i. \<pi> @ [i] \<in> positions v \<and> a = node_at v \<pi> \<and> b = node_at v (\<pi> @ [i]))"
proof (cases "is_primitive v")
  case False
  then show ?thesis by (rule edges_container)
next
  case True
  then obtain p where "v = JPrim p" by (auto simp: is_primitive_iff)
  then show ?thesis by (simp add: edges_primitive positions_primitive)
qed

lemma tree_nodes_char: "tree_nodes (emitted_intents tx s v) = node_at v ` positions v"
proof (intro set_eqI iffI)
  fix a assume "a \<in> tree_nodes (emitted_intents tx s v)"
  then consider "a = root_node" | b where "(a, b) \<in> rel_edges (emitted_intents tx s v)"
    | b where "(b, a) \<in> rel_edges (emitted_intents tx s v)"
    by (auto simp: tree_nodes_def)
  then show "a \<in> node_at v ` positions v"
  proof cases
    case 1
    have "[] \<in> positions v" by (simp add: positions_iff)
    with 1 node_at_root [of v] show ?thesis by (metis imageI)
  next
    case 2
    then obtain \<pi> i where "\<pi> @ [i] \<in> positions v" "a = node_at v \<pi>" by (auto simp: edges_char)
    with position_prefix show ?thesis by blast
  next
    case 3
    then obtain \<pi> i where "\<pi> @ [i] \<in> positions v" "a = node_at v (\<pi> @ [i])"
      by (auto simp: edges_char)
    then show ?thesis by blast
  qed
next
  fix a assume "a \<in> node_at v ` positions v"
  then obtain \<rho> where r: "\<rho> \<in> positions v" "a = node_at v \<rho>" by blast
  show "a \<in> tree_nodes (emitted_intents tx s v)"
  proof (cases \<rho> rule: rev_cases)
    case Nil
    with r show ?thesis by (simp add: tree_nodes_def node_at_root)
  next
    case (snoc \<pi> i)
    with r have "(node_at v \<pi>, a) \<in> rel_edges (emitted_intents tx s v)"
      by (auto simp: edges_char)
    then have "a \<in> snd ` rel_edges (emitted_intents tx s v)" by force
    then show ?thesis by (simp add: tree_nodes_def)
  qed
qed

lemma node_intents_char:
  assumes "\<not> is_primitive v"
  shows "node_intents (emitted_intents tx s v) = node_at v ` positions v"
proof (intro set_eqI iffI)
  fix a assume "a \<in> node_intents (emitted_intents tx s v)"
  then have "CreateNode (fst a) (snd a) \<in> set (emitted_intents tx s v)"
    by (simp add: node_intents_iff)
  then consider "CreateNode (fst a) (snd a) = root_intent"
    | \<pi> n where "descend (root_tnode v) \<pi> = Some n" "CreateNode (fst a) (snd a) \<in> set (node_block n)"
    using in_emitted_intents [OF assms, of "CreateNode (fst a) (snd a)" tx s] by blast
  then show "a \<in> node_at v ` positions v"
  proof cases
    case 1
    then have "a = node_at v []" by (simp add: root_intent_def node_at_root root_node_def prod_eq_iff)
    moreover have "[] \<in> positions v" by (simp add: positions_iff)
    ultimately show ?thesis by blast
  next
    case 2
    from 2(2) obtain i where i: "i < length (members (tlabel n) (tvalue n))"
      "fst a = tlabel (members (tlabel n) (tvalue n) ! i)"
      "snd a = tprops (members (tlabel n) (tvalue n) ! i)"
      unfolding in_node_block by auto
    have d': "descend (root_tnode v) (\<pi> @ [i]) = Some (members (tlabel n) (tvalue n) ! i)"
      using 2(1) i(1) by (simp add: descend_snoc)
    then have "\<pi> @ [i] \<in> positions v" by (simp add: positions_iff)
    moreover have "a = node_at v (\<pi> @ [i])" using d' i(2,3) by (simp add: node_at_Some prod_eq_iff)
    ultimately show ?thesis by blast
  qed
next
  fix a assume "a \<in> node_at v ` positions v"
  then obtain \<rho> where r: "\<rho> \<in> positions v" "a = node_at v \<rho>" by blast
  show "a \<in> node_intents (emitted_intents tx s v)"
  proof (cases \<rho> rule: rev_cases)
    case Nil
    with r have "a = root_node" by (simp add: node_at_root)
    then show ?thesis
      by (simp add: node_intents_iff emitted_intents_eq root_intent_def root_node_def)
  next
    case (snoc \<pi> i)
    with r obtain m where m: "descend (root_tnode v) (\<pi> @ [i]) = Some m"
      by (auto simp: positions_iff)
    then obtain n where n: "descend (root_tnode v) \<pi> = Some n"
      "i < length (members (tlabel n) (tvalue n))" "m = members (tlabel n) (tvalue n) ! i"
      by (auto simp: descend_snoc)
    have "CreateNode (tlabel m) (tprops m) \<in> set (node_block n)"
      unfolding in_node_block using n(2,3) by blast
    with n(1) have "CreateNode (tlabel m) (tprops m) \<in> set (emitted_intents tx s v)"
      using in_emitted_intents [OF assms, of "CreateNode (tlabel m) (tprops m)" tx s] by blast
    moreover have "a = (tlabel m, tprops m)" using r(2) snoc m by (simp add: node_at_Some)
    ultimately show ?thesis by (simp add: node_intents_iff)
  qed
qed

text \<open>Two example documents.\<close>

definition doc_nested_a :: json where
  "doc_nested_a = JDict [(''a'', JDict [(''a'', JDict [])])]"

definition doc_folding :: json where
  "doc_folding = JDict [(''a'', JPrim (PInt 1)), (''b'', JList [JPrim (PInt 2), JPrim (PInt 3)])]"

lemma jpaths_nested_a: "jpaths doc_nested_a = [[], [0], [0, 0]]"
proof -
  have j0: "jpaths (JDict []) = [[]]" by (subst jpaths.simps) simp
  have j1: "jpaths (JDict [(''a'', JDict [])]) = [[], [0]]"
    by (subst jpaths.simps) (simp add: j0)
  show ?thesis unfolding doc_nested_a_def by (subst jpaths.simps) (simp add: j1)
qed

lemma jpaths_folding: "jpaths doc_folding = [[], [0], [1], [1, 0], [1, 1]]"
proof -
  have j0: "jpaths (JPrim p) = [[]]" for p by (subst jpaths.simps) simp
  have j1: "jpaths (JList [JPrim (PInt 2), JPrim (PInt 3)]) = [[], [0], [1]]"
    by (subst jpaths.simps) (simp add: j0)
  show ?thesis unfolding doc_folding_def by (subst jpaths.simps) (simp add: j0 j1)
qed

lemma emitted_nested_a:
  "emitted_intents accept () doc_nested_a =
     [CreateNode ''Root'' [(''name'', PStr ''root'')],
      CreateNode ''A'' [(''name'', PStr ''a'')],
      CreateRelationship ''Root'' [(''name'', PStr ''root'')] ''A'' [(''name'', PStr ''a'')] ''HAS'',
      CreateNode ''A'' [(''name'', PStr ''a'')],
      CreateRelationship ''A'' [(''name'', PStr ''a'')] ''A'' [(''name'', PStr ''a'')] ''HAS'']"
  by code_simp

section \<open>The order of the whole sequence\<close>

lemma member_size: "m \<in> set (members l v) \<Longrightarrow> jsize (tvalue m) < jsize v"
proof -
  assume "m \<in> set (members l v)"
  then obtain i where i: "i < length (members l v)" "members l v ! i = m"
    by (auto simp: in_set_conv_nth)
  then have il: "i < length (children v)" by (simp add: length_members)
  from members_value [OF il, of l] i(2) have "tvalue m = children v ! i" by simp
  moreover have "children v ! i \<in> set (children v)" using il by simp
  ultimately show ?thesis by (simp add: children_size)
qed

text \<open>
  The order of the explicit stack, written on the tree: the block of a container, then the
  complete sequences of its object and array members, from the last such member to the first.
\<close>

function subtree_emits :: "tnode \<Rightarrow> intent list" where
  "subtree_emits n =
     node_block n @
     concat (map subtree_emits
       (rev (filter (\<lambda>m. \<not> is_primitive (tvalue m)) (members (tlabel n) (tvalue n)))))"
  by pat_completeness auto
termination
proof (relation "measure (\<lambda>n. jsize (tvalue n))")
  show "wf (measure (\<lambda>n. jsize (tvalue n)))" by simp
next
  fix n m :: tnode
  assume "m \<in> set (rev (filter (\<lambda>m. \<not> is_primitive (tvalue m)) (members (tlabel n) (tvalue n))))"
  then have "m \<in> set (members (tlabel n) (tvalue n))" by simp
  then show "(m, n) \<in> measure (\<lambda>n. jsize (tvalue n))" by (simp add: member_size)
qed

declare subtree_emits.simps [simp del]

text \<open>
  Document order: the members of the document as they occur in its text, every member
  followed by the members nested in it (depth first, first member first).
\<close>

function doc_order :: "tnode \<Rightarrow> node list" where
  "doc_order n =
     concat (map (\<lambda>m. (tlabel m, tprops m) # doc_order m) (members (tlabel n) (tvalue n)))"
  by pat_completeness auto
termination
proof (relation "measure (\<lambda>n. jsize (tvalue n))")
  show "wf (measure (\<lambda>n. jsize (tvalue n)))" by simp
next
  fix n m :: tnode
  assume "m \<in> set (members (tlabel n) (tvalue n))"
  then show "(m, n) \<in> measure (\<lambda>n. jsize (tvalue n))" by (simp add: member_size)
qed

declare doc_order.simps [simp del]

text \<open>The node statements of a sequence, in order.\<close>

definition node_seq :: "intent list \<Rightarrow> node list" where
  "node_seq out = concat (map (\<lambda>x. case x of
       CreateNode l p \<Rightarrow> [(l, p)] | CreateRelationship fl fp tl0 tp ty \<Rightarrow> []) out)"

lemma tnodes_of_pushes_aux:
  "map tnode_of (concat (rev (map push_of ms))) = rev (filter (\<lambda>m. \<not> is_primitive (tvalue m)) ms)"
  by (induction ms) (auto simp: push_of_def tnode_of_def)

lemma tnodes_of_pushes:
  "map tnode_of (frame_pushes fr) =
     rev (filter (\<lambda>m. \<not> is_primitive (tvalue m))
            (members (tlabel (tnode_of fr)) (tvalue (tnode_of fr))))"
proof -
  obtain pl pp rt cur where fr: "fr = (pl, pp, rt, cur)" by (cases fr) auto
  show ?thesis using tnodes_of_pushes_aux [of "members pl cur"]
    by (simp add: fr frame_pushes_def tnode_of_def)
qed

lemma emitted_stack_order:
  "\<forall>fr\<in>set st. ok_frame fr \<Longrightarrow> emitted st = concat (map (\<lambda>fr. subtree_emits (tnode_of fr)) st)"
proof (induction st rule: emitted.induct)
  case 1
  show ?case by simp
next
  case (2 f stack)
  have ok': "\<forall>fr\<in>set (frame_pushes f @ stack). ok_frame fr"
    using "2.prems" by (rule ok_stack_step)
  have okf: "ok_frame f" using "2.prems" by simp
  have "concat (map (\<lambda>fr. subtree_emits (tnode_of fr)) (frame_pushes f))
          = concat (map subtree_emits (map tnode_of (frame_pushes f)))"
    by (simp add: o_def)
  also have "\<dots> = concat (map subtree_emits
       (rev (filter (\<lambda>m. \<not> is_primitive (tvalue m))
               (members (tlabel (tnode_of f)) (tvalue (tnode_of f))))))"
    by (simp only: tnodes_of_pushes)
  finally have p: "node_block (tnode_of f)
                     @ concat (map (\<lambda>fr. subtree_emits (tnode_of fr)) (frame_pushes f))
                   = subtree_emits (tnode_of f)"
    by (subst (2) subtree_emits.simps) simp
  have "emitted (f # stack)
          = node_block (tnode_of f) @ emitted (frame_pushes f @ stack)"
    by (simp add: ok_frame_emits [OF okf])
  also have "\<dots> = (node_block (tnode_of f)
                     @ concat (map (\<lambda>fr. subtree_emits (tnode_of fr)) (frame_pushes f)))
                   @ concat (map (\<lambda>fr. subtree_emits (tnode_of fr)) stack)"
    by (simp add: "2.IH" [OF ok'])
  finally show ?case by (simp add: p)
qed

text \<open>Example with two nested siblings.\<close>

definition doc_siblings :: json where
  "doc_siblings = JDict [(''a'', JDict [(''x'', JPrim (PInt 1))]),
                         (''b'', JDict [(''y'', JPrim (PInt 2))])]"

lemma emitted_siblings:
  "emitted_intents accept () doc_siblings =
     [CreateNode ''Root'' [(''name'', PStr ''root'')],
      CreateNode ''A'' [(''name'', PStr ''a'')],
      CreateRelationship ''Root'' [(''name'', PStr ''root'')] ''A'' [(''name'', PStr ''a'')] ''HAS'',
      CreateNode ''B'' [(''name'', PStr ''b'')],
      CreateRelationship ''Root'' [(''name'', PStr ''root'')] ''B'' [(''name'', PStr ''b'')] ''HAS'',
      CreateNode ''Y'' [(''name'', PStr ''y''), (''value'', PInt 2)],
      CreateRelationship ''B'' [(''name'', PStr ''b'')] ''Y''
        [(''name'', PStr ''y''), (''value'', PInt 2)] ''HAS'',
      CreateNode ''X'' [(''name'', PStr ''x''), (''value'', PInt 1)],
      CreateRelationship ''A'' [(''name'', PStr ''a'')] ''X''
        [(''name'', PStr ''x''), (''value'', PInt 1)] ''HAS'']"
  by code_simp

lemma capitalize_examples:
  "capitalize ''a'' = ''A''" "capitalize ''b'' = ''B''"
  "capitalize ''x'' = ''X''" "capitalize ''y'' = ''Y''"
  by code_simp+

lemma doc_order_siblings:
  "doc_order (root_tnode doc_siblings) =
     [(''A'', [(''name'', PStr ''a'')]),
      (''X'', [(''name'', PStr ''x''), (''value'', PInt 1)]),
      (''B'', [(''name'', PStr ''b'')]),
      (''Y'', [(''name'', PStr ''y''), (''value'', PInt 2)])]"
proof -
  have leaf: "doc_order (l, p, JPrim q) = []" for l p q
    by (subst doc_order.simps) simp
  have a: "doc_order (''A'', [(''name'', PStr ''a'')], JDict [(''x'', JPrim (PInt 1))])
             = [(''X'', [(''name'', PStr ''x''), (''value'', PInt 1)])]"
    by (subst doc_order.simps) (simp add: member_props_def capitalize_examples leaf del: capitalize.simps)
  have b: "doc_order (''B'', [(''name'', PStr ''b'')], JDict [(''y'', JPrim (PInt 2))])
             = [(''Y'', [(''name'', PStr ''y''), (''value'', PInt 2)])]"
    by (subst doc_order.simps) (simp add: member_props_def capitalize_examples leaf del: capitalize.simps)
  show ?thesis unfolding root_tnode_def doc_siblings_def
    by (subst doc_order.simps) (simp add: member_props_def capitalize_examples a b del: capitalize.simps)
qed

section \<open>Properties\<close>

text \<open>
  C3. For every document and every relationship statement in the emitted sequence, the node
  statement of its source \<open>(from_label, from_properties)\<close> and the node statement of its
  target \<open>(to_label, to_properties)\<close> both occur at strictly smaller indices.
\<close>

theorem relationship_endpoints_earlier:
  assumes "i < length (emitted_intents tx s v)"
    and "emitted_intents tx s v ! i = CreateRelationship fl fp tl0 tp ty"
  shows "(\<exists>j<i. emitted_intents tx s v ! j = CreateNode fl fp)
       \<and> (\<exists>k<i. emitted_intents tx s v ! k = CreateNode tl0 tp)"
proof -
  let ?out = "emitted_intents tx s v"
  from endpoints_known_nth [OF emitted_intents_known assms]
  have m: "CreateNode fl fp \<in> set (take i ?out)" "CreateNode tl0 tp \<in> set (take i ?out)"
    by simp_all
  have nth: "\<exists>j<i. ?out ! j = x" if "x \<in> set (take i ?out)" for x
  proof -
    from that obtain j where "j < length (take i ?out)" "take i ?out ! j = x"
      by (auto simp: in_set_conv_nth)
    then have "j < i" "?out ! j = x" by simp_all
    then show ?thesis by blast
  qed
  from nth [OF m(1)] nth [OF m(2)] show ?thesis by blast
qed


theorem relationship_endpoints_earlier_witness:
  "(\<exists>j<2. emitted_intents (\<lambda>stmt s. Inr s :: exn + unit) () (JDict [(''a'', JPrim (PInt 1))]) ! j
            = CreateNode ''Root'' [(''name'', PStr ''root'')])
   \<and> (\<exists>k<2. emitted_intents (\<lambda>stmt s. Inr s :: exn + unit) () (JDict [(''a'', JPrim (PInt 1))]) ! k
            = CreateNode ''A'' [(''name'', PStr ''a''), (''value'', PInt 1)])"
proof -
  let ?out = "emitted_intents (\<lambda>stmt s. Inr s :: exn + unit) () (JDict [(''a'', JPrim (PInt 1))])"
  have a: "2 < length ?out" by (simp add: example_a1)
  have b: "?out ! 2 = CreateRelationship ''Root'' [(''name'', PStr ''root'')] ''A''
                        [(''name'', PStr ''a''), (''value'', PInt 1)] ''HAS''"
    by (simp add: example_a1)
  from relationship_endpoints_earlier [OF a b] show ?thesis .
qed

text \<open>
  C6. The code at the document \<open>42\<close>. No relationship is emitted, but the root node is not
  updated: \<open>process_json\<close> submits the node statement \<open>Root {name: "root"}\<close> before the
  loop and, in the primitive branch, a second node statement
  \<open>Root {name: "root", value: 42}\<close>. The two carry different property sets, so a store that
  matches on the full \<open>(label, properties)\<close> pair ends with two nodes labelled \<open>Root\<close>,
  the first still without the value. (For a primitive under a key or in an array the value is
  put into the properties before the node's only statement.)
\<close>

theorem bare_primitive_leaves_two_root_nodes:
  "emitted_intents tx s (JPrim (PInt 42)) =
     [CreateNode ''Root'' [(''name'', PStr ''root'')],
      CreateNode ''Root'' [(''name'', PStr ''root''), (''value'', PInt 42)]]
   \<and> store (snd (process_json upsert (JPrim (PInt 42))
                   \<lparr>issued = [], store = \<lparr>nodes = [], rels = []\<rparr>\<rparr>))
       = \<lparr>nodes = [(''Root'', [(''name'', PStr ''root'')]),
                  (''Root'', [(''name'', PStr ''root''), (''value'', PInt 42)])],
          rels = []\<rparr>"
proof -
  have a: "emitted_intents tx s (JPrim (PInt 42)) =
     [CreateNode ''Root'' [(''name'', PStr ''root'')],
      CreateNode ''Root'' [(''name'', PStr ''root''), (''value'', PInt 42)]]"
    by (simp add: emitted_intents_eq root_intent_def root_frame_def frame_emits_def frame_pushes_def)
  have "store (snd (process_json upsert (JPrim (PInt 42))
                   \<lparr>issued = [], store = \<lparr>nodes = [], rels = []\<rparr>\<rparr>))
       = \<lparr>nodes = [(''Root'', [(''name'', PStr ''root'')]),
                  (''Root'', [(''name'', PStr ''root''), (''value'', PInt 42)])],
          rels = []\<rparr>"
    by code_simp
  with a show ?thesis by blast
qed

text \<open>
  C7. As stated (document order governs the emission across the whole mapping) the claim
  fails: in \<open>{"a": {"x": 1}, "b": {"y": 2}}\<close> the key \<open>x\<close> comes before \<open>b\<close> and
  \<open>y\<close> in the document, and the node statements are emitted in the order
  \<open>Root, A, B, Y, X\<close>.
\<close>

theorem later_sibling_subtree_first_counterexample:
  "node_seq (emitted_intents accept () doc_siblings) =
     [(''Root'', [(''name'', PStr ''root'')]),
      (''A'', [(''name'', PStr ''a'')]),
      (''B'', [(''name'', PStr ''b'')]),
      (''Y'', [(''name'', PStr ''y''), (''value'', PInt 2)]),
      (''X'', [(''name'', PStr ''x''), (''value'', PInt 1)])]
   \<and> root_node # doc_order (root_tnode doc_siblings) =
     [(''Root'', [(''name'', PStr ''root'')]),
      (''A'', [(''name'', PStr ''a'')]),
      (''X'', [(''name'', PStr ''x''), (''value'', PInt 1)]),
      (''B'', [(''name'', PStr ''b'')]),
      (''Y'', [(''name'', PStr ''y''), (''value'', PInt 2)])]
   \<and> node_seq (emitted_intents accept () doc_siblings)
       \<noteq> root_node # doc_order (root_tnode doc_siblings)"
  by (simp add: emitted_siblings doc_order_siblings node_seq_def root_node_def)

text \<open>
  C7, amended. The emitted sequence depends on the document only, not on what the store
  answers. For an object or array document it is the root node statement followed by
  \<open>subtree_emits\<close> of the root: for every container, the statements of its members as one
  contiguous block, in document order (object keys) or index order (array elements), then the
  complete sequences of its nested object and array members, from the last such member to
  the first (the order in which the stack releases them).
\<close>

theorem emission_order_is_stack_order:
  assumes "\<not> is_primitive v" and "descend (root_tnode v) \<pi> = Some n"
  shows "emitted_intents tx s v = emitted_intents tx' s' v
       \<and> (\<exists>pre post. emitted_intents tx s v = pre @ node_block n @ post)
       \<and> emitted_intents tx s v = root_intent # subtree_emits (root_tnode v)"
proof -
  have ok: "\<forall>fr\<in>set [root_frame v]. ok_frame fr" using assms(1) by (simp add: ok_root_frame)
  have "descend (tnode_of (root_frame v)) \<pi> = Some n"
    using assms(2) by (simp add: tnode_of_root_frame)
  from emitted_block [OF ok _ this] obtain pre post
    where "emitted [root_frame v] = pre @ node_block n @ post" by auto
  then have "emitted_intents tx s v = (root_intent # pre) @ node_block n @ post"
    by (simp add: emitted_intents_eq)
  then have a: "\<exists>pre post. emitted_intents tx s v = pre @ node_block n @ post" by blast
  have b: "emitted_intents tx s v = root_intent # subtree_emits (root_tnode v)"
    using emitted_stack_order [OF ok] by (simp add: emitted_intents_eq tnode_of_root_frame)
  have c: "emitted_intents tx s v = emitted_intents tx' s' v" by (simp add: emitted_intents_eq)
  from a b c show ?thesis by blast
qed

theorem emission_order_is_stack_order_witness:
  "emitted_intents accept () doc_siblings
     = emitted_intents (\<lambda>stmt s. Inl WriteError :: exn + unit) () doc_siblings
   \<and> (\<exists>pre post. emitted_intents accept () doc_siblings
        = pre @ node_block (''B'', [(''name'', PStr ''b'')], JDict [(''y'', JPrim (PInt 2))]) @ post)
   \<and> emitted_intents accept () doc_siblings
       = root_intent # subtree_emits (root_tnode doc_siblings)"
proof -
  have a: "\<not> is_primitive doc_siblings" by (simp add: doc_siblings_def is_primitive_def)
  have b: "descend (root_tnode doc_siblings) [1]
             = Some (''B'', [(''name'', PStr ''b'')], JDict [(''y'', JPrim (PInt 2))])"
    by code_simp
  from emission_order_is_stack_order [OF a b] show ?thesis .
qed




text \<open>
  C5. Running \<open>process_json\<close> for a document a second time against the store left by the
  first run changes nothing: the store (its node list and its edge list) is the same as after
  one run, whatever the store held before. The upsert matches on the full
  \<open>(label, properties)\<close> pair and adds a node or an edge only when none matches, so a store
  without duplicate nodes or edges stays without duplicates.
\<close>

theorem replay_twice_same_store:
  "store (snd (process_json upsert v (snd (process_json upsert v w))))
     = store (snd (process_json upsert v w))
   \<and> (no_duplicates (store w) \<longrightarrow> no_duplicates (store (snd (process_json upsert v w))))"
proof -
  have e: "endpoints_known {} (emitted_intents upsert (store w) v)" by (rule emitted_intents_known)
  have a: "store (snd (process_json upsert v (snd (process_json upsert v w))))
             = store (snd (process_json upsert v w))"
    using replay_idempotent [OF e, of "store w"]
    by (simp add: store_process_json [where tx' = upsert and s' = "store w"])
  have b: "no_duplicates (store (snd (process_json upsert v w)))" if "no_duplicates (store w)"
    using foldl_no_duplicates [OF that]
    by (simp add: store_process_json [where tx' = upsert and s' = "store w"])
  from a b show ?thesis by blast
qed

theorem replay_twice_same_store_witness:
  "store (snd (process_json upsert (JDict [(''a'', JPrim (PInt 1))])
       (snd (process_json upsert (JDict [(''a'', JPrim (PInt 1))])
               \<lparr>issued = [], store = \<lparr>nodes = [], rels = []\<rparr>\<rparr>))))
     = store (snd (process_json upsert (JDict [(''a'', JPrim (PInt 1))])
               \<lparr>issued = [], store = \<lparr>nodes = [], rels = []\<rparr>\<rparr>))
   \<and> no_duplicates (store (snd (process_json upsert (JDict [(''a'', JPrim (PInt 1))])
               \<lparr>issued = [], store = \<lparr>nodes = [], rels = []\<rparr>\<rparr>)))"
  using replay_twice_same_store [of "JDict [(''a'', JPrim (PInt 1))]"
          "\<lparr>issued = [], store = \<lparr>nodes = [], rels = []\<rparr>\<rparr>"]
  by (simp add: no_duplicates_def)

text \<open>
  C2. The code at a failing input: the store rejects every statement. The first call (the
  root node) fails, and \<open>process_json\<close> still submits the node statement of \<open>A\<close> and the
  relationship, and returns success.
\<close>

theorem writes_continue_after_failure:
  "fst (create_node (\<lambda>stmt s. Inl WriteError) ''Root'' [(''name'', PStr ''root'')]
          \<lparr>issued = [], store = ()\<rparr>) = Inl WriteError
   \<and> issued (snd (process_json (\<lambda>stmt s. Inl WriteError) (JDict [(''a'', JPrim (PInt 1))])
                     \<lparr>issued = [], store = ()\<rparr>))
       = [CreateNode ''Root'' [(''name'', PStr ''root'')],
          CreateNode ''A'' [(''name'', PStr ''a''), (''value'', PInt 1)],
          CreateRelationship ''Root'' [(''name'', PStr ''root'')] ''A''
            [(''name'', PStr ''a''), (''value'', PInt 1)] ''HAS'']
   \<and> fst (process_json (\<lambda>stmt s. Inl WriteError) (JDict [(''a'', JPrim (PInt 1))])
             \<lparr>issued = [], store = ()\<rparr>) = Inr ()"
  by code_simp



text \<open>
  C4. \<open>process_directory\<close> returns one result per selected document, at the position of the
  document in the list of selected files. When one document \<open>e\<close> is readable but is not
  valid JSON and every other selected document parses, the result at the position of \<open>e\<close>
  is the failure, every other result is a success, and the statements submitted to the store
  are those of the same directory without \<open>e\<close>.
\<close>

theorem one_result_per_document_in_order:
  assumes sel: "fnmatch (entry_name e) ''*.json''"
    and rd: "read_file e = Inr contents"
    and bad: "loads contents = Inl err"
    and good: "\<forall>e'\<in>set (glob ''*.json'' (pre @ post)). \<exists>d. json_parsing_pipeline loads e' = Inr d"
  shows "length (fst (process_directory loads (process_json tx) (pre @ e # post) w))
           = length (glob ''*.json'' (pre @ e # post))
       \<and> fst (process_directory loads (process_json tx) (pre @ e # post) w)
           ! length (glob ''*.json'' pre) = Inl err
       \<and> (\<forall>i<length (glob ''*.json'' (pre @ e # post)). i \<noteq> length (glob ''*.json'' pre) \<longrightarrow>
            fst (process_directory loads (process_json tx) (pre @ e # post) w) ! i = Inr (Inr ()))
       \<and> snd (process_directory loads (process_json tx) (pre @ e # post) w)
           = snd (process_directory loads (process_json tx) (pre @ post) w)"
proof -
  let ?xs = "glob ''*.json'' pre" and ?ys = "glob ''*.json'' post"
  let ?R = "fst (process_directory loads (process_json tx) (pre @ e # post) w)"
  have docs: "glob ''*.json'' (pre @ e # post) = ?xs @ e # ?ys"
    using sel by (simp add: glob_def)
  have docs': "glob ''*.json'' (pre @ post) = ?xs @ ?ys" by (simp add: glob_def)
  have pipe: "json_parsing_pipeline loads e = Inl err"
    using rd bad by (simp add: json_parsing_pipeline_def parse_json_def)
  have "?R = map (outcome loads) (?xs @ e # ?ys)"
    by (simp only: process_directory_eq docs gather_results)
  then have R: "?R = map (outcome loads) ?xs @ outcome loads e # map (outcome loads) ?ys"
    by simp
  have oe: "(outcome loads e :: exn + ('a + unit)) = Inl err" by (simp add: outcome_def pipe)
  have ok: "(outcome loads e' :: exn + ('a + unit)) = Inr (Inr ())" if "e' \<in> set ?xs \<union> set ?ys" for e'
  proof -
    from that have "e' \<in> set (glob ''*.json'' (pre @ post))" by (simp add: docs')
    with good obtain d where "json_parsing_pipeline loads e' = Inr d" by blast
    then show ?thesis by (simp add: outcome_def)
  qed
  have c1: "length ?R = length (glob ''*.json'' (pre @ e # post))"
    by (simp add: R docs)
  have c2: "?R ! length ?xs = Inl err"
    by (simp add: R oe nth_append)
  have c3: "?R ! i = Inr (Inr ())"
    if "i < length (glob ''*.json'' (pre @ e # post))" "i \<noteq> length ?xs" for i
  proof (cases "i < length ?xs")
    case True
    then have "?xs ! i \<in> set ?xs" by simp
    then have "(outcome loads (?xs ! i) :: exn + ('a + unit)) = Inr (Inr ())" by (intro ok) simp
    with True show ?thesis by (simp add: R nth_append)
  next
    case False
    with that(2) have gt: "length ?xs < i" by simp
    then obtain j where j: "i = length ?xs + Suc j" by (metis less_iff_Suc_add add_Suc_right)
    with that(1) have jl: "j < length ?ys" by (simp add: docs)
    then have "?ys ! j \<in> set ?ys" by simp
    then have "(outcome loads (?ys ! j) :: exn + ('a + unit)) = Inr (Inr ())" by (intro ok) simp
    with jl show ?thesis by (simp add: R j nth_append)
  qed
  have c4: "snd (process_directory loads (process_json tx) (pre @ e # post) w)
              = snd (process_directory loads (process_json tx) (pre @ post) w)"
    using gather_skip_failed [OF pipe, of "process_json tx" ?xs ?ys w]
    by (simp add: process_directory_eq docs docs')
  from c1 c2 c3 c4 show ?thesis by blast
qed

theorem one_result_per_document_in_order_witness:
  "length (fst (process_directory loads_example (process_json accept)
                  ([file_a] @ file_bad # [file_b]) session0)) = 3
   \<and> fst (process_directory loads_example (process_json accept)
            ([file_a] @ file_bad # [file_b]) session0) ! 1 = Inl JSONDecodeError
   \<and> fst (process_directory loads_example (process_json accept)
            ([file_a] @ file_bad # [file_b]) session0) ! 0 = Inr (Inr ())
   \<and> fst (process_directory loads_example (process_json accept)
            ([file_a] @ file_bad # [file_b]) session0) ! 2 = Inr (Inr ())
   \<and> snd (process_directory loads_example (process_json accept)
            ([file_a] @ file_bad # [file_b]) session0)
       = snd (process_directory loads_example (process_json accept) ([file_a] @ [file_b]) session0)"
proof -
  let ?R = "fst (process_directory loads_example (process_json accept)
                   ([file_a] @ file_bad # [file_b]) session0)"
  have sel: "fnmatch (entry_name file_bad) ''*.json''" by (simp add: file_bad_def)
  have rd: "read_file file_bad = Inr ''{''" by (simp add: file_bad_def)
  have bad: "loads_example ''{'' = Inl JSONDecodeError" by (simp add: loads_example_def)
  have good: "\<forall>e'\<in>set (glob ''*.json'' ([file_a] @ [file_b])).
                \<exists>d. json_parsing_pipeline loads_example e' = Inr d"
    by (simp add: glob_def json_parsing_pipeline_def parse_json_def loads_example_def
          file_a_def file_b_def)
  have g1: "length (glob ''*.json'' [file_a]) = 1" by (simp add: glob_def file_a_def)
  have g3: "length (glob ''*.json'' ([file_a] @ file_bad # [file_b])) = 3"
    by (simp add: glob_def file_a_def file_b_def file_bad_def)
  note t = one_result_per_document_in_order [OF sel rd bad good, of accept session0,
             unfolded g1 g3]
  from t have a: "length ?R = 3" by blast
  from t have b: "?R ! 1 = Inl JSONDecodeError" by blast
  from t have c: "\<forall>i<3. i \<noteq> 1 \<longrightarrow> ?R ! i = Inr (Inr ())" by blast
  from t have d: "snd (process_directory loads_example (process_json accept)
            ([file_a] @ file_bad # [file_b]) session0)
       = snd (process_directory loads_example (process_json accept) ([file_a] @ [file_b]) session0)"
    by blast
  from c have c0: "?R ! 0 = Inr (Inr ())" by simp
  from c have c2: "?R ! 2 = Inr (Inr ())" by simp
  from a b c0 c2 d show ?thesis by blast
qed

text \<open>
  C10. The pattern \<open>*.json\<close> matches exactly the names that end in \<open>.json\<close>.
  \<open>process_directory\<close> returns one result per entry of the directory itself whose name
  matches; an entry whose name does not match can be removed without changing the results or
  the store, and the entries inside a subdirectory never matter. (\<open>Path.glob\<close> selects by
  name: a subdirectory whose own name ends in \<open>.json\<close> is selected and its read fails.)
\<close>

theorem directory_selects_top_level_json:
  "fnmatch name ''*.json'' = (\<exists>stem. name = stem @ ''.json'')
   \<and> length (fst (process_directory loads processor dir w))
       = length (filter (\<lambda>e. fnmatch (entry_name e) ''*.json'') dir)
   \<and> (\<not> fnmatch (entry_name e) ''*.json'' \<longrightarrow>
        process_directory loads processor (pre @ e # post) w
          = process_directory loads processor (pre @ post) w)
   \<and> process_directory loads processor (pre @ Dir n es # post) w
       = process_directory loads processor (pre @ Dir n es' # post) w"
proof -
  have a: "length (fst (process_directory loads processor dir w))
             = length (filter (\<lambda>e. fnmatch (entry_name e) ''*.json'') dir)"
    by (simp add: process_directory_eq length_gather glob_def)
  have b: "process_directory loads processor (pre @ e # post) w
             = process_directory loads processor (pre @ post) w"
    if "\<not> fnmatch (entry_name e) ''*.json''"
    using that by (simp add: process_directory_eq glob_def)
  have c: "process_directory loads processor (pre @ Dir n es # post) w
             = process_directory loads processor (pre @ Dir n es' # post) w"
    by (simp add: process_directory_eq glob_def process_file_Dir)
  from fnmatch_json a b c show ?thesis by blast
qed

theorem directory_selects_top_level_json_witness:
  "(\<exists>stem. ''a.json'' = stem @ ''.json'')
   \<and> length (fst (process_directory loads_example (process_json accept)
                    [file_a, file_notes, dir_sub, file_b] session0)) = 2
   \<and> process_directory loads_example (process_json accept) ([file_a] @ file_notes # [file_b]) session0
       = process_directory loads_example (process_json accept) ([file_a] @ [file_b]) session0
   \<and> process_directory loads_example (process_json accept)
         ([file_a] @ Dir ''sub'' [File ''c.json'' (Inr ''{}'')] # [file_b]) session0
       = process_directory loads_example (process_json accept)
           ([file_a] @ Dir ''sub'' [] # [file_b]) session0"
proof -
  have n: "\<not> fnmatch (entry_name file_notes) ''*.json''" by (simp add: file_notes_def)
  have m: "fnmatch ''a.json'' ''*.json''" by simp
  have l: "length (filter (\<lambda>e. fnmatch (entry_name e) ''*.json'')
                    [file_a, file_notes, dir_sub, file_b]) = 2"
    by (simp add: file_a_def file_b_def file_notes_def dir_sub_def)
  note t = directory_selects_top_level_json
             [of "''a.json''" loads_example "process_json accept"
                 "[file_a, file_notes, dir_sub, file_b]" session0
                 file_notes "[file_a]" "[file_b]" "''sub''" "[File ''c.json'' (Inr ''{}'')]" "[]"]
  from t m have a: "\<exists>stem. ''a.json'' = stem @ ''.json''" by blast
  from t l have b: "length (fst (process_directory loads_example (process_json accept)
                    [file_a, file_notes, dir_sub, file_b] session0)) = 2" by simp
  from t n have c: "process_directory loads_example (process_json accept)
         ([file_a] @ file_notes # [file_b]) session0
       = process_directory loads_example (process_json accept) ([file_a] @ [file_b]) session0"
    by blast
  from t have d: "process_directory loads_example (process_json accept)
         ([file_a] @ Dir ''sub'' [File ''c.json'' (Inr ''{}'')] # [file_b]) session0
       = process_directory loads_example (process_json accept)
           ([file_a] @ Dir ''sub'' [] # [file_b]) session0" by blast
  from a b c d show ?thesis by blast
qed

text \<open>
  C1. As stated the claim fails: in \<open>{"a": {"a": {}}}\<close> (no duplicate keys in any object)
  the two nested members get the same node \<open>A {name: "a"}\<close>, so the three positions of
  the document are mapped to two nodes, joined by \<open>Root \<rightarrow> A\<close> and the loop
  \<open>A \<rightarrow> A\<close>: no bijection between positions and nodes exists.
\<close>

theorem nested_same_key_not_a_tree_counterexample:
  "\<not> tree_isomorphic doc_nested_a (emitted_intents accept () doc_nested_a)"
proof
  assume "tree_isomorphic doc_nested_a (emitted_intents accept () doc_nested_a)"
  then obtain \<phi> where "bij_betw \<phi> (positions doc_nested_a)
                          (tree_nodes (emitted_intents accept () doc_nested_a))"
    by (auto simp: tree_isomorphic_def isomorphism_def)
  then have "card (positions doc_nested_a)
               = card (tree_nodes (emitted_intents accept () doc_nested_a))"
    by (rule bij_betw_same_card)
  moreover have "card (positions doc_nested_a) = 3"
    by (simp add: positions_def jpaths_nested_a)
  moreover have "tree_nodes (emitted_intents accept () doc_nested_a)
                   = {(''Root'', [(''name'', PStr ''root'')]), (''A'', [(''name'', PStr ''a'')])}"
    by (auto simp: emitted_nested_a tree_nodes_def rel_edges_def root_node_def)
  then have "card (tree_nodes (emitted_intents accept () doc_nested_a)) = 2" by simp
  ultimately show False by simp
qed

text \<open>
  C1, amended. For every document in which no two positions get the same
  \<open>(label, properties)\<close> pair, the containment relations rebuilt from the emitted statements
  form a tree isomorphic to the tree of positions of the document, rooted at the root node:
  \<open>node_at\<close> is a bijection from the positions to the nodes, it sends the top position to
  \<open>Root {name: "root"}\<close>, and there is an edge between the images of two positions exactly
  when the second is a child of the first. For an object or array document the nodes of this
  tree are exactly the emitted node statements.
\<close>

theorem containment_tree_isomorphic:
  assumes "inj_on (node_at v) (positions v)"
  shows "isomorphism (node_at v) v (emitted_intents tx s v)
       \<and> tree_isomorphic v (emitted_intents tx s v)
       \<and> (\<not> is_primitive v \<longrightarrow>
            node_intents (emitted_intents tx s v) = tree_nodes (emitted_intents tx s v))"
proof -
  let ?out = "emitted_intents tx s v"
  have bij: "bij_betw (node_at v) (positions v) (tree_nodes ?out)"
    using assms by (simp add: bij_betw_def tree_nodes_char)
  have edges: "((node_at v \<pi>, node_at v \<rho>) \<in> rel_edges ?out) = (\<exists>i. \<rho> = \<pi> @ [i])"
    if "\<pi> \<in> positions v" "\<rho> \<in> positions v" for \<pi> \<rho>
  proof
    assume "(node_at v \<pi>, node_at v \<rho>) \<in> rel_edges ?out"
    then obtain \<pi>' i where p: "\<pi>' @ [i] \<in> positions v" "node_at v \<pi> = node_at v \<pi>'"
      "node_at v \<rho> = node_at v (\<pi>' @ [i])" by (auto simp: edges_char)
    from p(1) have "\<pi>' \<in> positions v" by (rule position_prefix)
    with p(2) that(1) assms have "\<pi> = \<pi>'" by (auto dest: inj_onD)
    moreover from p(1,3) that(2) assms have "\<rho> = \<pi>' @ [i]" by (auto dest: inj_onD)
    ultimately show "\<exists>i. \<rho> = \<pi> @ [i]" by blast
  next
    assume "\<exists>i. \<rho> = \<pi> @ [i]"
    with that(2) show "(node_at v \<pi>, node_at v \<rho>) \<in> rel_edges ?out"
      by (auto simp: edges_char)
  qed
  have iso: "isomorphism (node_at v) v ?out"
    using bij edges by (simp add: isomorphism_def node_at_root)
  then have "tree_isomorphic v ?out" by (auto simp: tree_isomorphic_def)
  moreover have "node_intents ?out = tree_nodes ?out" if "\<not> is_primitive v"
    using node_intents_char [OF that] by (simp add: tree_nodes_char)
  ultimately show ?thesis using iso by blast
qed

theorem containment_tree_isomorphic_witness:
  "isomorphism (node_at doc_folding) doc_folding (emitted_intents accept () doc_folding)
   \<and> node_intents (emitted_intents accept () doc_folding)
       = tree_nodes (emitted_intents accept () doc_folding)"
proof -
  have "distinct (map (node_at doc_folding) [[], [0], [1], [1, 0], [1, 1]])" by code_simp
  then have inj: "inj_on (node_at doc_folding) (positions doc_folding)"
    by (simp add: distinct_map positions_def jpaths_folding)
  have np: "\<not> is_primitive doc_folding" by (simp add: doc_folding_def is_primitive_def)
  from containment_tree_isomorphic [OF inj, of accept "()"] np show ?thesis by blast
qed

end
